theory Spec2Isabelle
  imports Main "HOL-Library.Sublist"
begin

section \<open>Data model\<close>

text \<open>
  The client's data layer lives in one TypeScript module. Its constants, types and
  functions are translated below one by one, under the names the module gives them.
  JavaScript numbers that hold ids, indices, counts and millisecond clock readings are
  integers here (\<open>int\<close> where a value comes from outside, \<open>nat\<close> for indices and
  lengths that the module itself counts up from zero).
\<close>

definition MAX_FRONT_PAGE_STORIES :: nat where "MAX_FRONT_PAGE_STORIES = 30"
definition FETCH_CHUNK_SIZE :: nat where "FETCH_CHUNK_SIZE = 15"
definition MAX_COMMENT_DEPTH :: nat where "MAX_COMMENT_DEPTH = 5"
definition MAX_CHILDREN_PER_LEVEL :: nat where "MAX_CHILDREN_PER_LEVEL = 10"
definition PAGE_SIZE :: nat where "PAGE_SIZE = 30"
definition FEED_CACHE_TTL_MS :: int where "FEED_CACHE_TTL_MS = 60000"
definition USER_CACHE_TTL_MS :: int where "USER_CACHE_TTL_MS = 5 * 60000"
definition POST_CACHE_TTL_MS :: int where "POST_CACHE_TTL_MS = 2 * 60000"

datatype Section = Top | New | Past | Comments | Ask | Show | Jobs | Submit

datatype ItemType = Story | Comment | Job | Poll | PollOpt

text \<open>
  A value as it arrives in a JSON payload where the module inspects it with
  \<^verbatim>\<open>typeof\<close>: the \<open>id\<close> of an item and the entries of an id list are declared
  \<^verbatim>\<open>number\<close>, but the declaration is a cast, and the module checks at run time.
\<close>

datatype js_value = Undefined | Null | Boolean bool | Number int | String string

fun typeof :: "js_value \<Rightarrow> string" where
  "typeof Undefined = ''undefined''"
| "typeof Null = ''object''"
| "typeof (Boolean b) = ''boolean''"
| "typeof (Number n) = ''number''"
| "typeof (String s) = ''string''"

text \<open>
  \<^verbatim>\<open>HNItem\<close>: every field but \<open>id\<close> is optional (\<open>None\<close> is \<^verbatim>\<open>undefined\<close>).
\<close>

record HNItem =
  item_id :: js_value
  item_type :: "ItemType option"
  item_by :: "string option"
  item_time :: "int option"
  item_title :: "string option"
  item_text :: "string option"
  item_url :: "string option"
  item_score :: "int option"
  item_descendants :: "int option"
  item_parent :: "int option"
  item_kids :: "int list option"
  item_dead :: "bool option"
  item_deleted :: "bool option"

text \<open>\<^verbatim>\<open>HNCommentNode = HNItem & { children: HNCommentNode[] }\<close>\<close>

datatype HNCommentNode = HNCommentNode (node_item: HNItem) (children: "HNCommentNode list")

datatype LoadState = Idle | Loading | Ready | Error

record 'a TimedValue =
  tv_value :: 'a
  createdAt :: int

record FeedSnapshot =
  snap_ids :: "int list"
  snap_items :: "HNItem list"
  snap_nextFetchIndex :: nat

record PostSnapshot =
  post_item :: HNItem
  post_comments :: "HNCommentNode list"

record HNUser =
  user_id :: string
  user_created :: int
  user_about :: "string option"
  user_karma :: int
  user_submitted :: "int list option"

section \<open>JavaScript helpers\<close>

text \<open>Truthiness of an optional boolean flag (\<^verbatim>\<open>item.dead\<close>) and of an optional string.\<close>

definition truthy :: "bool option \<Rightarrow> bool" where
  "truthy b = (b = Some True)"

definition truthy_string :: "string option \<Rightarrow> bool" where
  "truthy_string s = (case s of None \<Rightarrow> False | Some t \<Rightarrow> t \<noteq> [])"

text \<open>
  \<^verbatim>\<open>xs.slice(a, b)\<close> for indices \<open>0 \<le> a \<le> b\<close>, the only way the module calls it:
  the elements from index \<open>a\<close> up to, not including, index \<open>b\<close>, as far as the list goes.
\<close>

definition slice :: "'a list \<Rightarrow> nat \<Rightarrow> nat \<Rightarrow> 'a list" where
  "slice xs a b = take (b - a) (drop a xs)"

text \<open>\<^verbatim>\<open>item.kids ?? []\<close>\<close>

definition kids_or_empty :: "HNItem \<Rightarrow> int list" where
  "kids_or_empty item = (case item_kids item of None \<Rightarrow> [] | Some ks \<Rightarrow> ks)"

section \<open>The network\<close>

text \<open>
  What \<^verbatim>\<open>fetch(url, { signal })\<close> meets upstream: the request fails in transport, or a
  response arrives with a status and a body; the body parses as JSON to a value
  (\<open>Some\<close>) or does not parse (\<open>None\<close>). An abort signal is its \<^verbatim>\<open>aborted\<close> flag, read
  once for the whole call it is passed to: a request under an aborted signal rejects.
\<close>

datatype 'a response = NetworkFailure | Response (status: nat) (body: "'a option")

datatype AbortSignal = AbortSignal (aborted: bool)

datatype error = AbortError | NetworkError | RequestFailed nat | SyntaxError | PostNotFound

definition ok :: "nat \<Rightarrow> bool" where
  "ok st = (200 \<le> st \<and> st \<le> 299)"

text \<open>
  A rejected promise is \<open>Inl\<close> of the error it rejects with, a fulfilled one \<open>Inr\<close>.
  \<open>RequestFailed st\<close> is the module's own \<^verbatim>\<open>Error(`Request failed (${status})`)\<close>,
  \<open>PostNotFound\<close> its \<^verbatim>\<open>Error("Post not found.")\<close>; the other three are the
  platform's rejections of \<^verbatim>\<open>fetch\<close> and \<^verbatim>\<open>response.json()\<close>.
\<close>

definition fetchJson :: "'a response \<Rightarrow> AbortSignal \<Rightarrow> error + 'a" where
  "fetchJson r signal =
     (if aborted signal then Inl AbortError
      else case r of
        NetworkFailure \<Rightarrow> Inl NetworkError
      | Response st b \<Rightarrow>
          if \<not> ok st then Inl (RequestFailed st)
          else (case b of None \<Rightarrow> Inl SyntaxError | Some v \<Rightarrow> Inr v))"

text \<open>
  The item endpoint \<^verbatim>\<open>GET /item/{id}.json\<close>: for each id what the request meets. The
  payload is an item or \<^verbatim>\<open>null\<close> (\<open>None\<close>). Nothing stops an upstream from answering
  an id with an item that lists its own id among its kids, or that carries another id.
\<close>

type_synonym item_endpoint = "int \<Rightarrow> HNItem option response"

definition fetchItemById :: "item_endpoint \<Rightarrow> int \<Rightarrow> AbortSignal \<Rightarrow> error + HNItem option" where
  "fetchItemById api i signal =
     (case fetchJson (api i) signal of
        Inl e \<Rightarrow> Inl e
      | Inr item \<Rightarrow>
          (case item of
             None \<Rightarrow> Inr None
           | Some it \<Rightarrow> if typeof (item_id it) \<noteq> ''number'' then Inr None else Inr (Some it)))"

text \<open>\<^verbatim>\<open>promise.catch(() => null)\<close>\<close>

definition catch_null :: "error + 'a option \<Rightarrow> 'a option" where
  "catch_null p = (case p of Inl e \<Rightarrow> None | Inr v \<Rightarrow> v)"

section \<open>The comment-tree builder\<close>

text \<open>
  \<^verbatim>\<open>Promise.all\<close> over \<^verbatim>\<open>limitedIds.map(...)\<close> gives the results in the order of the
  ids, whatever order the requests complete in, so it is a \<open>map\<close>. No request of the
  builder can reject (each is caught), so the builder always fulfils: its result is the
  forest itself.
\<close>

definition isValidComment :: "HNItem \<Rightarrow> bool" where
  "isValidComment item =
     (item_type item = Some Comment \<and> \<not> truthy (item_dead item) \<and> \<not> truthy (item_deleted item))"

function buildCommentTree :: "item_endpoint \<Rightarrow> int list \<Rightarrow> AbortSignal \<Rightarrow> nat \<Rightarrow> HNCommentNode list" where
  "buildCommentTree api ids signal depth =
     (if depth \<ge> MAX_COMMENT_DEPTH \<or> length ids = 0 then []
      else
        let limitedIds = slice ids 0 MAX_CHILDREN_PER_LEVEL;
            results = map (\<lambda>i. catch_null (fetchItemById api i signal)) limitedIds;
            validComments = filter isValidComment (List.map_filter (\<lambda>r. r) results)
        in map (\<lambda>item. HNCommentNode item (buildCommentTree api (kids_or_empty item) signal (depth + 1)))
             validComments)"
  by pat_completeness auto
termination
  by (relation "measure (\<lambda>(api, ids, signal, depth). MAX_COMMENT_DEPTH - depth)") auto

section \<open>The entity fetcher: batches\<close>

text \<open>
  The inner \<^verbatim>\<open>for (const item of results)\<close> of \<^verbatim>\<open>fetchItemsByIds\<close>: a missing, deleted
  or dead result is skipped (\<^verbatim>\<open>continue\<close>), any other is pushed, and the loop is left
  (\<^verbatim>\<open>break\<close>) when the push brings the length to \<open>maxItems\<close>.
\<close>

fun fetchItemsByIds_push :: "nat \<Rightarrow> HNItem option list \<Rightarrow> HNItem list \<Rightarrow> HNItem list" where
  "fetchItemsByIds_push maxItems [] items = items"
| "fetchItemsByIds_push maxItems (result # results) items =
     (case result of
        None \<Rightarrow> fetchItemsByIds_push maxItems results items
      | Some item \<Rightarrow>
          if truthy (item_deleted item) \<or> truthy (item_dead item)
          then fetchItemsByIds_push maxItems results items
          else
            let items' = items @ [item]
            in if length items' = maxItems then items'
               else fetchItemsByIds_push maxItems results items')"

text \<open>
  The outer \<^verbatim>\<open>for\<close> loop, from its state \<open>startIndex\<close>, \<open>items\<close>. The default of
  \<open>maxItems\<close>, the number of ids, is written out by the caller.
\<close>

function fetchItemsByIds_from ::
  "item_endpoint \<Rightarrow> int list \<Rightarrow> AbortSignal \<Rightarrow> nat \<Rightarrow> nat \<Rightarrow> HNItem list \<Rightarrow> HNItem list" where
  "fetchItemsByIds_from api ids signal maxItems startIndex items =
     (if startIndex < length ids \<and> length items < maxItems then
        let chunk = slice ids startIndex (startIndex + FETCH_CHUNK_SIZE);
            results = map (\<lambda>i. catch_null (fetchItemById api i signal)) chunk
        in fetchItemsByIds_from api ids signal maxItems (startIndex + FETCH_CHUNK_SIZE)
             (fetchItemsByIds_push maxItems results items)
      else items)"
  by pat_completeness auto
termination
  by (relation "measure (\<lambda>(api, ids, signal, maxItems, startIndex, items). length ids - startIndex)")
     (auto simp: FETCH_CHUNK_SIZE_def)

definition fetchItemsByIds :: "item_endpoint \<Rightarrow> int list \<Rightarrow> AbortSignal \<Rightarrow> nat \<Rightarrow> HNItem list" where
  "fetchItemsByIds api ids signal maxItems = fetchItemsByIds_from api ids signal maxItems 0 []"

section \<open>Feed pagination\<close>

definition shouldRenderInSection :: "HNItem \<Rightarrow> Section \<Rightarrow> bool" where
  "shouldRenderInSection item section =
     (if truthy (item_dead item) \<or> truthy (item_deleted item) then False
      else if section = Jobs then item_type item = Some Job
      else if section = Comments then item_type item = Some Comment \<and> truthy_string (item_text item)
      else item_type item = Some Story \<or> item_type item = Some Poll)"

record FeedPage =
  page_items :: "HNItem list"
  nextFetchIndex :: nat

text \<open>The inner \<^verbatim>\<open>for (const item of fetchedItems)\<close> of \<^verbatim>\<open>fetchFeedPage\<close>.\<close>

fun fetchFeedPage_push :: "Section \<Rightarrow> HNItem list \<Rightarrow> HNItem list \<Rightarrow> HNItem list" where
  "fetchFeedPage_push section [] pageItems = pageItems"
| "fetchFeedPage_push section (item # fetchedItems) pageItems =
     (if \<not> shouldRenderInSection item section
      then fetchFeedPage_push section fetchedItems pageItems
      else
        let pageItems' = pageItems @ [item]
        in if length pageItems' = PAGE_SIZE then pageItems'
           else fetchFeedPage_push section fetchedItems pageItems')"

text \<open>The \<^verbatim>\<open>while\<close> loop, from its state \<open>cursor\<close>, \<open>pageItems\<close>.\<close>

function fetchFeedPage_while ::
  "item_endpoint \<Rightarrow> int list \<Rightarrow> Section \<Rightarrow> AbortSignal \<Rightarrow> nat \<Rightarrow> HNItem list \<Rightarrow> FeedPage" where
  "fetchFeedPage_while api ids section signal cursor pageItems =
     (if cursor < length ids \<and> length pageItems < PAGE_SIZE then
        let chunk = slice ids cursor (cursor + PAGE_SIZE)
        in if length chunk = 0 then \<lparr>page_items = pageItems, nextFetchIndex = cursor\<rparr>
           else
             let cursor' = cursor + PAGE_SIZE;
                 fetchedItems = fetchItemsByIds api chunk signal (length chunk)
             in fetchFeedPage_while api ids section signal cursor'
                  (fetchFeedPage_push section fetchedItems pageItems)
      else \<lparr>page_items = pageItems, nextFetchIndex = cursor\<rparr>)"
  by pat_completeness auto
termination
  by (relation "measure (\<lambda>(api, ids, section, signal, cursor, pageItems). length ids - cursor)")
     (auto simp: PAGE_SIZE_def)

definition fetchFeedPage :: "item_endpoint \<Rightarrow> int list \<Rightarrow> Section \<Rightarrow> nat \<Rightarrow> AbortSignal \<Rightarrow> FeedPage" where
  "fetchFeedPage api ids section startIndex signal =
     fetchFeedPage_while api ids section signal startIndex []"

section \<open>The id-list resolver\<close>

text \<open>
  The list endpoints: \<^verbatim>\<open>GET /updates.json\<close>, an object whose \<open>items\<close> may be missing,
  and \<^verbatim>\<open>GET /{endpoint}.json\<close>, an array. Both payloads have their declared shape, an
  object and an array. The entries are declared numbers; the resolver keeps those whose
  \<^verbatim>\<open>typeof\<close> is \<^verbatim>\<open>"number"\<close>.
\<close>

record Updates =
  updates_items :: "js_value list option"

record list_endpoints =
  updates_json :: "Updates response"
  stories_json :: "string \<Rightarrow> js_value list response"

definition numeric_ids :: "js_value list \<Rightarrow> int list" where
  "numeric_ids xs =
     List.map_filter (\<lambda>v. case v of Number n \<Rightarrow> Some n | _ \<Rightarrow> None)
       (filter (\<lambda>v. typeof v = ''number'') xs)"

text \<open>The \<^verbatim>\<open>const endpoint\<close> of the resolver: the list a section other than the two special ones reads.\<close>

definition endpoint :: "Section \<Rightarrow> string" where
  "endpoint section =
     (if section = New then ''newstories''
      else if section = Ask then ''askstories''
      else if section = Show then ''showstories''
      else if section = Jobs then ''jobstories''
      else ''topstories'')"

definition fetchStoryIds :: "list_endpoints \<Rightarrow> Section \<Rightarrow> AbortSignal \<Rightarrow> error + int list" where
  "fetchStoryIds api section signal =
     (if section = Submit then Inr []
      else if section = Comments then
        (case fetchJson (updates_json api) signal of
           Inl e \<Rightarrow> Inl e
         | Inr updates \<Rightarrow>
             Inr (numeric_ids (case updates_items updates of None \<Rightarrow> [] | Some xs \<Rightarrow> xs)))
      else
        (case fetchJson (stories_json api (endpoint section)) signal of
           Inl e \<Rightarrow> Inl e
         | Inr storyIds \<Rightarrow> Inr (numeric_ids storyIds)))"

section \<open>The session cache\<close>

text \<open>
  A \<^verbatim>\<open>Map\<close> is a partial function. \<^verbatim>\<open>Date.now()\<close> is the argument \<open>now\<close>. A read
  may delete, so it returns the cache with its answer.
\<close>

definition readTimedCache ::
  "('k \<rightharpoonup> 'v TimedValue) \<Rightarrow> 'k \<Rightarrow> int \<Rightarrow> int \<Rightarrow> ('k \<rightharpoonup> 'v TimedValue) \<times> 'v option" where
  "readTimedCache cache key maxAgeMs now =
     (case cache key of
        None \<Rightarrow> (cache, None)
      | Some entry \<Rightarrow>
          if now - createdAt entry > maxAgeMs then (cache(key := None), None)
          else (cache, Some (tv_value entry)))"

definition writeTimedCache ::
  "('k \<rightharpoonup> 'v TimedValue) \<Rightarrow> 'k \<Rightarrow> 'v \<Rightarrow> int \<Rightarrow> ('k \<rightharpoonup> 'v TimedValue)" where
  "writeTimedCache cache key v now = cache(key \<mapsto> \<lparr>tv_value = v, createdAt = now\<rparr>)"

section \<open>The views that drive the data layer\<close>

text \<open>
  The feed view's state and its \<^verbatim>\<open>loadFeed\<close>. The function suspends twice, at the
  resolver and at the first page; \<open>signalAtIds\<close> and \<open>signalAtPage\<close> are the state of the
  operation's own signal over each of the two, as the request and the check after it
  see it. \<open>nowRead\<close> and \<open>nowWrite\<close> are the clock at the cache read and at the cache
  write. The error kept in the state stands for its message (\<open>None\<close> for the empty one).
  The view's \<^verbatim>\<open>requestRef\<close>, which holds the controller of the load in flight so that the
  next load can abort it, is not part of the state: which signal is aborted when is given
  by the two signal arguments.
\<close>

record FeedViewState =
  fv_ids :: "int list"
  fv_items :: "HNItem list"
  fv_loadState :: LoadState
  fv_errorMessage :: "error option"
  fv_nextFetchIndex :: nat

type_synonym feed_cache = "Section \<rightharpoonup> FeedSnapshot TimedValue"

text \<open>The initial values of the view's \<^verbatim>\<open>useState\<close> hooks.\<close>

definition FeedView_initial :: FeedViewState where
  "FeedView_initial =
     \<lparr>fv_ids = [], fv_items = [], fv_loadState = Idle, fv_errorMessage = None,
      fv_nextFetchIndex = MAX_FRONT_PAGE_STORIES\<rparr>"

definition loadFeed ::
  "list_endpoints \<Rightarrow> item_endpoint \<Rightarrow> Section \<Rightarrow> bool \<Rightarrow> AbortSignal \<Rightarrow> AbortSignal \<Rightarrow> int \<Rightarrow> int \<Rightarrow>
   FeedViewState \<times> feed_cache \<Rightarrow> FeedViewState \<times> feed_cache" where
  "loadFeed listApi api section forceFresh signalAtIds signalAtPage nowRead nowWrite w =
     (let st = (fst w)\<lparr>fv_errorMessage := None\<rparr>;
          feedCache = snd w
      in if section = Submit
         then (st\<lparr>fv_ids := [], fv_items := [], fv_nextFetchIndex := 0, fv_loadState := Ready\<rparr>, feedCache)
         else
           let r = (if \<not> forceFresh then readTimedCache feedCache section FEED_CACHE_TTL_MS nowRead
                    else (feedCache, None));
               feedCache = fst r;
               cachedSnapshot = snd r
           in case cachedSnapshot of
                Some snap \<Rightarrow>
                  (st\<lparr>fv_ids := snap_ids snap, fv_items := snap_items snap,
                       fv_nextFetchIndex := snap_nextFetchIndex snap, fv_loadState := Ready\<rparr>,
                   feedCache)
              | None \<Rightarrow>
                  let st = st\<lparr>fv_loadState := Loading, fv_items := [], fv_ids := []\<rparr>
                  in case fetchStoryIds listApi section signalAtIds of
                       Inl e \<Rightarrow>
                         if aborted signalAtIds then (st, feedCache)
                         else (st\<lparr>fv_items := [], fv_loadState := Error, fv_errorMessage := Some e\<rparr>,
                               feedCache)
                     | Inr allIds \<Rightarrow>
                         if aborted signalAtIds then (st, feedCache)
                         else
                           let startIndex = (if section = Past then MAX_FRONT_PAGE_STORIES else 0);
                               firstPage = fetchFeedPage api allIds section startIndex signalAtPage
                           in if aborted signalAtPage then (st, feedCache)
                              else
                                (st\<lparr>fv_ids := allIds, fv_items := page_items firstPage,
                                     fv_nextFetchIndex := nextFetchIndex firstPage,
                                     fv_loadState := Ready\<rparr>,
                                 writeTimedCache feedCache section
                                   \<lparr>snap_ids = allIds, snap_items = page_items firstPage,
                                    snap_nextFetchIndex = nextFetchIndex firstPage\<rparr>
                                   nowWrite))"

text \<open>
  The post view. Its effect requests the post and chains two callbacks: \<^verbatim>\<open>.then\<close>, which
  runs when the post has arrived, awaits the comment tree and stores the result, and
  \<^verbatim>\<open>.catch\<close>. Each is a function of the state and cache it finds when it runs.
  \<open>signalAtTree\<close> is the state of the effect's signal while the tree is built.
\<close>

record PostViewState =
  pv_item :: "HNItem option"
  pv_comments :: "HNCommentNode list"
  pv_loadState :: LoadState
  pv_errorMessage :: "error option"

type_synonym post_cache = "int \<rightharpoonup> PostSnapshot TimedValue"

text \<open>The initial values of the view's \<^verbatim>\<open>useState\<close> hooks, from the cache read of the first render.\<close>

definition PostView_initial :: "PostSnapshot option \<Rightarrow> PostViewState" where
  "PostView_initial cachedPost =
     \<lparr>pv_item = (case cachedPost of None \<Rightarrow> None | Some snap \<Rightarrow> Some (post_item snap)),
      pv_comments = (case cachedPost of None \<Rightarrow> [] | Some snap \<Rightarrow> post_comments snap),
      pv_loadState = (case cachedPost of None \<Rightarrow> Loading | Some snap \<Rightarrow> Ready),
      pv_errorMessage = None\<rparr>"

text \<open>The user view keeps users under \<^verbatim>\<open>userId.toLowerCase()\<close>.\<close>

type_synonym user_cache = "string \<rightharpoonup> HNUser TimedValue"

definition PostView_then ::
  "item_endpoint \<Rightarrow> int \<Rightarrow> AbortSignal \<Rightarrow> int \<Rightarrow> HNItem option \<Rightarrow>
   PostViewState \<times> post_cache \<Rightarrow> error + PostViewState \<times> post_cache" where
  "PostView_then api postId signalAtTree now nextItem w =
     (case nextItem of
        None \<Rightarrow> Inl PostNotFound
      | Some it \<Rightarrow>
          let st = (fst w)\<lparr>pv_item := Some it\<rparr>;
              nextComments = buildCommentTree api (kids_or_empty it) signalAtTree 0
          in Inr (st\<lparr>pv_comments := nextComments, pv_loadState := Ready\<rparr>,
                  writeTimedCache (snd w) postId
                    \<lparr>post_item = it, post_comments = nextComments\<rparr> now))"

definition PostView_catch ::
  "AbortSignal \<Rightarrow> error \<Rightarrow> PostViewState \<times> post_cache \<Rightarrow> PostViewState \<times> post_cache" where
  "PostView_catch signal e w =
     (if aborted signal then w
      else ((fst w)\<lparr>pv_item := None, pv_comments := [], pv_loadState := Error,
                     pv_errorMessage := Some e\<rparr>,
            snd w))"

text \<open>
  The effect from its start to its end, when nothing else touches the state in between:
  \<open>signalAtFetch\<close> is the state of the signal while the post is requested, and the one
  the \<^verbatim>\<open>.catch\<close> handler reads, since only the request and the \<^verbatim>\<open>throw\<close> before the
  first \<^verbatim>\<open>await\<close> of \<^verbatim>\<open>.then\<close> can reject.
\<close>

definition PostView_effect ::
  "item_endpoint \<Rightarrow> int \<Rightarrow> AbortSignal \<Rightarrow> AbortSignal \<Rightarrow> int \<Rightarrow> PostSnapshot option \<Rightarrow>
   PostViewState \<times> post_cache \<Rightarrow> PostViewState \<times> post_cache" where
  "PostView_effect api postId signalAtFetch signalAtTree now cachedPost w =
     (case cachedPost of
        Some snap \<Rightarrow> w
      | None \<Rightarrow>
          (case fetchItemById api postId signalAtFetch of
             Inl e \<Rightarrow> PostView_catch signalAtFetch e w
           | Inr nextItem \<Rightarrow>
               (case PostView_then api postId signalAtTree now nextItem w of
                  Inl e \<Rightarrow> PostView_catch signalAtFetch e w
                | Inr w' \<Rightarrow> w')))"

section \<open>Notions the properties are stated with\<close>

text \<open>Every node of a forest with its depth, the roots at depth \<open>d\<close>.\<close>

fun node_depths :: "nat \<Rightarrow> HNCommentNode \<Rightarrow> (nat \<times> HNCommentNode) list" where
  "node_depths d (HNCommentNode it cs) =
     (d, HNCommentNode it cs) # concat (map (node_depths (Suc d)) cs)"

definition forest_depths :: "nat \<Rightarrow> HNCommentNode list \<Rightarrow> (nat \<times> HNCommentNode) list" where
  "forest_depths d forest = concat (map (node_depths d) forest)"

text \<open>The \<^verbatim>\<open>validComments\<close> of one level of the builder, for the ids it is given.\<close>

definition level_comments :: "item_endpoint \<Rightarrow> int list \<Rightarrow> AbortSignal \<Rightarrow> HNItem list" where
  "level_comments api ids signal =
     filter isValidComment
       (List.map_filter (\<lambda>r. r)
          (map (\<lambda>i. catch_null (fetchItemById api i signal)) (slice ids 0 MAX_CHILDREN_PER_LEVEL)))"

text \<open>An item that neither suppression flag excludes.\<close>

definition live :: "HNItem \<Rightarrow> bool" where
  "live item = (\<not> truthy (item_deleted item) \<and> \<not> truthy (item_dead item))"

text \<open>The items that the caught requests for a list of ids give, in the order of the ids.\<close>

definition fetched :: "item_endpoint \<Rightarrow> AbortSignal \<Rightarrow> int list \<Rightarrow> HNItem list" where
  "fetched api signal ids = List.map_filter (\<lambda>i. catch_null (fetchItemById api i signal)) ids"

text \<open>Of the items the requests for a list of ids give, those that a feed shows.\<close>

definition rendered :: "item_endpoint \<Rightarrow> AbortSignal \<Rightarrow> Section \<Rightarrow> int list \<Rightarrow> HNItem list" where
  "rendered api signal section ids =
     filter (\<lambda>item. shouldRenderInSection item section) (fetched api signal ids)"

text \<open>
  A chain of page fetches over one id list, as the view's load-more handler makes them:
  each call starts at the cursor the call before it returned. Every call meets its own
  upstream and its own signal.
\<close>

fun fetchFeedPages ::
  "(item_endpoint \<times> AbortSignal) list \<Rightarrow> int list \<Rightarrow> Section \<Rightarrow> nat \<Rightarrow> FeedPage list" where
  "fetchFeedPages [] ids section startIndex = []"
| "fetchFeedPages (call # calls) ids section startIndex =
     (let page = fetchFeedPage (fst call) ids section startIndex (snd call)
      in page # fetchFeedPages calls ids section (nextFetchIndex page))"

text \<open>An upstream that answers each of the ids, where it answers with an item, with an item that carries the id.\<close>

definition echoes :: "item_endpoint \<Rightarrow> int list \<Rightarrow> bool" where
  "echoes api ids =
     list_all (\<lambda>i. case api i of
                      Response st (Some (Some it)) \<Rightarrow> item_id it = Number i
                    | _ \<Rightarrow> True) ids"

section \<open>Upstreams to run the functions on\<close>

text \<open>An item as the upstream sends it, with an id, a type and kids, and no other field.\<close>

definition item_of :: "int \<Rightarrow> ItemType \<Rightarrow> int list \<Rightarrow> HNItem" where
  "item_of i t ks =
     \<lparr>item_id = Number i, item_type = Some t, item_by = None, item_time = None,
      item_title = None, item_text = None, item_url = None, item_score = None,
      item_descendants = None, item_parent = None, item_kids = Some ks,
      item_dead = None, item_deleted = None\<rparr>"

text \<open>An endless thread: comment \<open>i\<close> has the one reply \<open>i + 1\<close>.\<close>

definition chain_api :: item_endpoint where
  "chain_api i = Response 200 (Some (Some (item_of i Comment [i + 1])))"

text \<open>A cycle: every comment lists itself as its reply.\<close>

definition loop_api :: item_endpoint where
  "loop_api i = Response 200 (Some (Some (item_of i Comment [i])))"

text \<open>Comments without replies, and stories; in \<open>flagged_api\<close> story 2 is dead and story 3 deleted.\<close>

definition flat_api :: item_endpoint where
  "flat_api i = Response 200 (Some (Some (item_of i Comment [])))"

definition story_api :: item_endpoint where
  "story_api i = Response 200 (Some (Some (item_of i Story [])))"

definition flagged_api :: item_endpoint where
  "flagged_api i =
     Response 200 (Some (Some
       (if i = 2 then (item_of i Story [])\<lparr>item_dead := Some True\<rparr>
        else if i = 3 then (item_of i Story [])\<lparr>item_deleted := Some True\<rparr>
        else item_of i Story [])))"

text \<open>Job postings, but for id 2, a story.\<close>

definition jobs_api :: item_endpoint where
  "jobs_api i = Response 200 (Some (Some (item_of i (if i = 2 then Story else Job) [])))"

text \<open>An upstream that answers every id with the same story, which carries the id 99.\<close>

definition stale_api :: item_endpoint where
  "stale_api i = Response 200 (Some (Some (item_of 99 Story [])))"

text \<open>Comments, but for id 31, a story.\<close>

definition late_story_api :: item_endpoint where
  "late_story_api i = Response 200 (Some (Some (item_of i (if i = 31 then Story else Comment) [])))"

text \<open>List endpoints: the updates feed with two entries that are no numbers, and 32 ranked ids.\<close>

definition lists_api :: list_endpoints where
  "lists_api =
     \<lparr>updates_json = Response 200 (Some \<lparr>updates_items = Some [Number 1, String ''x'', Number 3, Null]\<rparr>),
      stories_json = (\<lambda>e. Response 200 (Some (map Number
        [1, 2, 3, 4, 5, 6, 7, 8, 9, 10, 11, 12, 13, 14, 15, 16, 17, 18, 19, 20, 21, 22,
         23, 24, 25, 26, 27, 28, 29, 30, 31, 32])))\<rparr>"

section \<open>Unfolding the loops\<close>

text \<open>
  The three functions defined by general recursion are unfolded by hand, one step at a
  time, so their defining equations leave the simplifier's rule set.
\<close>

declare buildCommentTree.simps [simp del] fetchItemsByIds_from.simps [simp del] fetchFeedPage_while.simps [simp del]

lemmas run_simps =
  slice_def fetchItemById_def fetchJson_def catch_null_def ok_def List.map_filter_simps
  isValidComment_def truthy_def truthy_string_def kids_or_empty_def item_of_def live_def
  MAX_COMMENT_DEPTH_def MAX_CHILDREN_PER_LEVEL_def PAGE_SIZE_def FETCH_CHUNK_SIZE_def

section \<open>The comment-tree builder: depth, breadth, termination\<close>

lemma buildCommentTree_stop:
  "MAX_COMMENT_DEPTH \<le> depth \<or> ids = [] \<Longrightarrow> buildCommentTree api ids signal depth = []"
  by (subst buildCommentTree.simps) auto

lemma buildCommentTree_step:
  "depth < MAX_COMMENT_DEPTH \<Longrightarrow> ids \<noteq> [] \<Longrightarrow>
   buildCommentTree api ids signal depth =
     map (\<lambda>item. HNCommentNode item (buildCommentTree api (kids_or_empty item) signal (Suc depth)))
       (level_comments api ids signal)"
  by (subst buildCommentTree.simps) (simp add: level_comments_def Let_def)

lemma level_comments_empty: "level_comments api [] signal = []"
  by (simp add: level_comments_def slice_def List.map_filter_simps)

lemma buildCommentTree_unfold:
  "buildCommentTree api ids signal depth =
     (if MAX_COMMENT_DEPTH \<le> depth then []
      else map (\<lambda>item. HNCommentNode item (buildCommentTree api (kids_or_empty item) signal (Suc depth)))
       (level_comments api ids signal))"
  by (cases "ids = []") (auto simp: buildCommentTree_stop buildCommentTree_step level_comments_empty)

lemma forest_depths_Cons:
  "forest_depths d (HNCommentNode it cs # forest) =
     (d, HNCommentNode it cs) # forest_depths (Suc d) cs @ forest_depths d forest"
  by (simp add: forest_depths_def)

lemma forest_depths_map:
  "set (forest_depths d (map (\<lambda>item. HNCommentNode item (f item)) xs)) =
     (\<Union>item \<in> set xs. insert (d, HNCommentNode item (f item)) (set (forest_depths (Suc d) (f item))))"
  by (induction xs) (auto simp: forest_depths_def)

text \<open>
  The invariant of the recursion: a node of the forest built at depth \<open>depth\<close> lies
  between \<open>depth\<close> and the limit, is a valid comment, and has as children what the
  builder makes of its kids one level down.
\<close>

lemma buildCommentTree_nodes:
  "(d, n) \<in> set (forest_depths depth (buildCommentTree api ids signal depth)) \<Longrightarrow>
   depth \<le> d \<and> d < MAX_COMMENT_DEPTH \<and> isValidComment (node_item n) \<and>
   children n = buildCommentTree api (kids_or_empty (node_item n)) signal (Suc d)"
proof (induction api ids signal depth rule: buildCommentTree.induct)
  case (1 api ids signal depth)
  show ?case
  proof (cases "MAX_COMMENT_DEPTH \<le> depth \<or> ids = []")
    case True
    with "1.prems" show ?thesis
      by (simp add: buildCommentTree_stop forest_depths_def)
  next
    case False
    then have small: "depth < MAX_COMMENT_DEPTH" and ne: "ids \<noteq> []" by auto
    from "1.prems" obtain item where
      item: "item \<in> set (level_comments api ids signal)" and
      mem: "(d, n) = (depth, HNCommentNode item (buildCommentTree api (kids_or_empty item) signal (Suc depth)))
            \<or> (d, n) \<in> set (forest_depths (Suc depth) (buildCommentTree api (kids_or_empty item) signal (Suc depth)))"
      by (auto simp: buildCommentTree_step [OF small ne] forest_depths_map)
    from mem show ?thesis
    proof
      assume "(d, n) = (depth, HNCommentNode item (buildCommentTree api (kids_or_empty item) signal (Suc depth)))"
      with item small show ?thesis by (auto simp: level_comments_def)
    next
      assume deeper: "(d, n) \<in> set (forest_depths (Suc depth) (buildCommentTree api (kids_or_empty item) signal (Suc depth)))"
      have "Suc depth \<le> d \<and> d < MAX_COMMENT_DEPTH \<and> isValidComment (node_item n) \<and>
            children n = buildCommentTree api (kids_or_empty (node_item n)) signal (Suc d)"
        using "1.IH" [OF _ refl refl refl, of item] False item deeper
        by (simp add: level_comments_def)
      then show ?thesis by simp
    qed
  qed
qed




lemma map_filter_id_map: "List.map_filter (\<lambda>r. r) (map f xs) = List.map_filter f xs"
  by (simp add: List.map_filter_def filter_map comp_def)




text \<open>
  The builder run on the endless thread (from depth 0 and from depth 3), on the cycle, and
  on twelve comments without replies.
\<close>

lemma chain_run:
  "buildCommentTree chain_api [1] (AbortSignal False) 0 =
   [HNCommentNode (item_of 1 Comment [2])
     [HNCommentNode (item_of 2 Comment [3])
       [HNCommentNode (item_of 3 Comment [4])
         [HNCommentNode (item_of 4 Comment [5])
           [HNCommentNode (item_of 5 Comment [6]) []]]]]]"
  by (simp add: buildCommentTree_unfold level_comments_def chain_api_def run_simps)

lemma chain_run_3:
  "buildCommentTree chain_api [1] (AbortSignal False) 3 =
   [HNCommentNode (item_of 1 Comment [2]) [HNCommentNode (item_of 2 Comment [3]) []]]"
  by (simp add: buildCommentTree_unfold level_comments_def chain_api_def run_simps)

lemma loop_run:
  "buildCommentTree loop_api [7] (AbortSignal False) 0 =
   [HNCommentNode (item_of 7 Comment [7])
     [HNCommentNode (item_of 7 Comment [7])
       [HNCommentNode (item_of 7 Comment [7])
         [HNCommentNode (item_of 7 Comment [7])
           [HNCommentNode (item_of 7 Comment [7]) []]]]]]"
  by (simp add: buildCommentTree_unfold level_comments_def loop_api_def run_simps)

lemma flat_run:
  "buildCommentTree flat_api [1, 2, 3, 4, 5, 6, 7, 8, 9, 10, 11, 12] (AbortSignal False) 0 =
   map (\<lambda>i. HNCommentNode (item_of i Comment []) []) [1, 2, 3, 4, 5, 6, 7, 8, 9, 10]"
  by (simp add: buildCommentTree_unfold level_comments_def flat_api_def run_simps)


text \<open>
  Claim C2 (bounded recursion depth). For every id list and every starting depth, each
  node of the forest that \<open>buildCommentTree\<close> returns, its roots counted at the starting
  depth \<open>depth\<close>, lies at a depth \<open>d\<close> with \<open>d + 1 \<le> 5\<close>: the direct replies of the root
  item are level 1, and no node is deeper than level 5. A node on level 5 is returned
  with no children, however long the thread goes on upstream.
\<close>

theorem buildCommentTree_bounded_depth:
  "\<forall>(d, n) \<in> set (forest_depths depth (buildCommentTree api ids signal depth)).
     depth \<le> d \<and> Suc d \<le> 5 \<and> (Suc d = 5 \<longrightarrow> children n = [])"
proof (clarify, intro conjI impI)
  fix d n
  assume mem: "(d, n) \<in> set (forest_depths depth (buildCommentTree api ids signal depth))"
  note facts = buildCommentTree_nodes [OF mem]
  from facts show "depth \<le> d" by simp
  from facts show "Suc d \<le> 5" by (simp add: MAX_COMMENT_DEPTH_def)
  assume "Suc d = 5"
  with facts show "children n = []"
    by (simp add: buildCommentTree_stop MAX_COMMENT_DEPTH_def)
qed

text \<open>
  On the endless thread the forest from comment 1 reaches level 5 and stops there:
  comment 5 is in it at depth 4, with its reply 6 unexpanded.
\<close>

theorem buildCommentTree_bounded_depth_witness:
  "(4, HNCommentNode (item_of 5 Comment [6]) [])
     \<in> set (forest_depths 0 (buildCommentTree chain_api [1] (AbortSignal False) 0)) \<and>
   Suc 4 \<le> (5::nat) \<and> children (HNCommentNode (item_of 5 Comment [6]) []) = []"
  using buildCommentTree_bounded_depth [of 0 chain_api "[1]" "AbortSignal False"]
  by (simp add: chain_run forest_depths_def)



text \<open>
  Claim C10 (termination of the tree builder). The recursion of \<open>buildCommentTree\<close> is
  well-founded on every input (every argument is in the domain of the function): at or
  past depth 5 the call returns the empty forest at once, and below it each recursive call
  is made at depth \<open>depth + 1\<close>. Nothing is assumed of the upstream, which may answer
  with kids that form a cycle.
\<close>

theorem buildCommentTree_terminates:
  "buildCommentTree_dom (api, ids, signal, depth) \<and>
   (MAX_COMMENT_DEPTH \<le> depth \<longrightarrow> buildCommentTree api ids signal depth = []) \<and>
   (depth < MAX_COMMENT_DEPTH \<longrightarrow>
      buildCommentTree api ids signal depth =
        map (\<lambda>item. HNCommentNode item (buildCommentTree api (kids_or_empty item) signal (depth + 1)))
          (level_comments api ids signal))"
proof (intro conjI impI)
  have "All buildCommentTree_dom"
    by (rule "buildCommentTree.termination"
          [of "measure (\<lambda>(api, ids, signal, depth). MAX_COMMENT_DEPTH - depth)"]) auto
  then show "buildCommentTree_dom (api, ids, signal, depth)" ..
  show "buildCommentTree api ids signal depth = []" if "MAX_COMMENT_DEPTH \<le> depth"
    using that by (simp add: buildCommentTree_stop)
  show "buildCommentTree api ids signal depth =
        map (\<lambda>item. HNCommentNode item (buildCommentTree api (kids_or_empty item) signal (depth + 1)))
          (level_comments api ids signal)" if "depth < MAX_COMMENT_DEPTH"
    using that by (subst buildCommentTree_unfold) simp
qed

text \<open>
  On the cycle, where comment 7 lists itself as its reply, the builder returns five nested
  copies of comment 7 and stops.
\<close>

theorem buildCommentTree_terminates_witness:
  "MAX_COMMENT_DEPTH \<le> 5 \<and> buildCommentTree loop_api [7] (AbortSignal False) 5 = [] \<and>
   0 < MAX_COMMENT_DEPTH \<and>
   buildCommentTree loop_api [7] (AbortSignal False) 0 =
     [HNCommentNode (item_of 7 Comment [7])
       [HNCommentNode (item_of 7 Comment [7])
         [HNCommentNode (item_of 7 Comment [7])
           [HNCommentNode (item_of 7 Comment [7])
             [HNCommentNode (item_of 7 Comment [7]) []]]]]]"
  using buildCommentTree_terminates [of loop_api "[7]" "AbortSignal False" 5]
    buildCommentTree_terminates [of loop_api "[7]" "AbortSignal False" 0]
  by (simp add: loop_run MAX_COMMENT_DEPTH_def)

section \<open>Batches and pages\<close>

lemma fetched_append: "fetched api signal (xs @ ys) = fetched api signal xs @ fetched api signal ys"
  by (simp add: fetched_def List.map_filter_def)

lemma length_fetched: "length (fetched api signal ids) \<le> length ids"
  unfolding fetched_def List.map_filter_def
  by (metis length_filter_le length_map)

lemma fetched_Cons:
  "fetched api signal (i # ids) =
     (case catch_null (fetchItemById api i signal) of
        None \<Rightarrow> fetched api signal ids
      | Some it \<Rightarrow> it # fetched api signal ids)"
  by (simp add: fetched_def List.map_filter_simps split: option.splits)

text \<open>
  The inner loop of the batch fetch appends the live results until the target is met.
\<close>

lemma fetchItemsByIds_push_eq:
  "length items < maxItems \<Longrightarrow>
   fetchItemsByIds_push maxItems results items =
     items @ take (maxItems - length items) (filter live (List.map_filter (\<lambda>r. r) results))"
proof (induction results arbitrary: items)
  case Nil
  then show ?case by (simp add: List.map_filter_simps)
next
  case (Cons r rs)
  show ?case
  proof (cases r)
    case None
    with Cons show ?thesis by (simp add: List.map_filter_simps)
  next
    case (Some item)
    show ?thesis
    proof (cases "live item")
      case False
      with Some Cons show ?thesis by (auto simp: List.map_filter_simps live_def)
    next
      case True
      show ?thesis
      proof (cases "Suc (length items) = maxItems")
        case full: True
        then have "maxItems - length items = Suc 0" by simp
        with Some True full show ?thesis
          by (simp add: List.map_filter_simps live_def Let_def)
      next
        case notfull: False
        with Cons.prems have lt: "length (items @ [item]) < maxItems" by simp
        have m: "maxItems - length items = Suc (maxItems - length (items @ [item]))"
          using lt by simp
        have "fetchItemsByIds_push maxItems (r # rs) items =
                fetchItemsByIds_push maxItems rs (items @ [item])"
          using Some True notfull by (simp add: live_def Let_def)
        also have "\<dots> = (items @ [item]) @
              take (maxItems - length (items @ [item])) (filter live (List.map_filter (\<lambda>r. r) rs))"
          by (rule Cons.IH [OF lt])
        finally show ?thesis
          using Some True by (simp add: List.map_filter_simps m del: length_append)
      qed
    qed
  qed
qed

lemma drop_chunk: "take n (drop k xs) @ drop (k + n) xs = drop k xs"
  by (metis add.commute append_take_drop_id drop_drop)

lemma fetchItemsByIds_from_eq:
  "fetchItemsByIds_from api ids signal maxItems startIndex items =
     (if length items < maxItems
      then items @ take (maxItems - length items) (filter live (fetched api signal (drop startIndex ids)))
      else items)"
proof (induction api ids signal maxItems startIndex items rule: fetchItemsByIds_from.induct)
  case (1 api ids signal maxItems startIndex items)
  show ?case
  proof (cases "startIndex < length ids \<and> length items < maxItems")
    case False
    then show ?thesis
      by (subst fetchItemsByIds_from.simps) (auto simp: fetched_def List.map_filter_simps)
  next
    case True
    define chunk where "chunk = slice ids startIndex (startIndex + FETCH_CHUNK_SIZE)"
    define a where "a = filter live (fetched api signal chunk)"
    define b where "b = filter live (fetched api signal (drop (startIndex + FETCH_CHUNK_SIZE) ids))"
    define items1 where "items1 = fetchItemsByIds_push maxItems (map (\<lambda>i. catch_null (fetchItemById api i signal)) chunk) items"
    define n where "n = maxItems - length items"
    have decomp: "drop startIndex ids = chunk @ drop (startIndex + FETCH_CHUNK_SIZE) ids"
      by (simp add: chunk_def slice_def drop_chunk)
    have split: "filter live (fetched api signal (drop startIndex ids)) = a @ b"
      by (simp only: decomp fetched_append filter_append a_def b_def)
    have items1: "items1 = items @ take n a"
      unfolding items1_def a_def n_def fetched_def
      using True by (simp add: fetchItemsByIds_push_eq map_filter_id_map)
    have step: "fetchItemsByIds_from api ids signal maxItems startIndex items =
                fetchItemsByIds_from api ids signal maxItems (startIndex + FETCH_CHUNK_SIZE) items1"
      using True by (subst fetchItemsByIds_from.simps) (simp add: items1_def chunk_def Let_def)
    have ih: "fetchItemsByIds_from api ids signal maxItems (startIndex + FETCH_CHUNK_SIZE) items1 =
        (if length items1 < maxItems then items1 @ take (maxItems - length items1) b else items1)"
      using "1.IH" [OF True refl refl] by (simp add: items1_def chunk_def b_def)
    have npos: "0 < n" "length items + n = maxItems" using True by (simp_all add: n_def)
    have rhs: "(if length items < maxItems
                then items @ take (maxItems - length items) (filter live (fetched api signal (drop startIndex ids)))
                else items) = items @ take n (a @ b)"
      using True by (simp add: split n_def)
    show ?thesis
    proof (cases "length a < n")
      case short: True
      then have lt: "length items1 < maxItems" and m: "maxItems - length items1 = n - length a"
        using npos by (simp_all add: items1)
      have "fetchItemsByIds_from api ids signal maxItems startIndex items =
              items1 @ take (maxItems - length items1) b"
        using lt by (simp only: step ih if_True)
      also have "\<dots> = items @ take n (a @ b)"
        using short m by (simp add: items1)
      finally show ?thesis by (simp only: rhs)
    next
      case long: False
      then have ge: "\<not> length items1 < maxItems" using npos by (simp add: items1)
      have "fetchItemsByIds_from api ids signal maxItems startIndex items = items1"
        using ge by (simp only: step ih if_False)
      also have "\<dots> = items @ take n (a @ b)"
        using long by (simp add: items1)
      finally show ?thesis by (simp only: rhs)
    qed
  qed
qed

text \<open>
  So the chunks do not show in the result: a batch is the first \<open>maxItems\<close> live items
  of the ids, in the order of the ids.
\<close>

lemma fetchItemsByIds_eq:
  "fetchItemsByIds api ids signal maxItems = take maxItems (filter live (fetched api signal ids))"
  by (simp add: fetchItemsByIds_def fetchItemsByIds_from_eq)

lemma fetchItemsByIds_chunk:
  "fetchItemsByIds api chunk signal (length chunk) = filter live (fetched api signal chunk)"
proof -
  have "length (filter live (fetched api signal chunk)) \<le> length chunk"
    by (meson le_trans length_filter_le length_fetched)
  then show ?thesis by (simp add: fetchItemsByIds_eq)
qed

lemma fetchItemsByIds_live: "item \<in> set (fetchItemsByIds api ids signal maxItems) \<Longrightarrow> live item"
  by (auto simp: fetchItemsByIds_eq dest: in_set_takeD)

lemma fetchFeedPage_push_eq:
  "length pageItems < PAGE_SIZE \<Longrightarrow>
   fetchFeedPage_push section xs pageItems =
     pageItems @ take (PAGE_SIZE - length pageItems) (filter (\<lambda>item. shouldRenderInSection item section) xs)"
proof (induction xs arbitrary: pageItems)
  case Nil
  then show ?case by simp
next
  case (Cons x xs)
  show ?case
  proof (cases "shouldRenderInSection x section")
    case False
    with Cons show ?thesis by simp
  next
    case True
    show ?thesis
    proof (cases "Suc (length pageItems) = PAGE_SIZE")
      case full: True
      then have "PAGE_SIZE - length pageItems = Suc 0" by simp
      with True full show ?thesis by (simp add: Let_def)
    next
      case notfull: False
      with Cons.prems have lt: "length (pageItems @ [x]) < PAGE_SIZE" by simp
      have m: "PAGE_SIZE - length pageItems = Suc (PAGE_SIZE - length (pageItems @ [x]))"
        using lt by simp
      have "fetchFeedPage_push section (x # xs) pageItems = fetchFeedPage_push section xs (pageItems @ [x])"
        using True notfull by (simp add: Let_def)
      also have "\<dots> = (pageItems @ [x]) @
            take (PAGE_SIZE - length (pageItems @ [x])) (filter (\<lambda>item. shouldRenderInSection item section) xs)"
        by (rule Cons.IH [OF lt])
      finally show ?thesis
        using True by (simp add: m del: length_append)
    qed
  qed
qed

lemma shouldRender_live: "shouldRenderInSection item section \<Longrightarrow> live item"
  by (auto simp: shouldRenderInSection_def live_def split: if_splits)

lemma rendered_live:
  "filter (\<lambda>item. live item \<and> shouldRenderInSection item section) xs =
   filter (\<lambda>item. shouldRenderInSection item section) xs"
  by (rule filter_cong) (auto dest: shouldRender_live)

lemma rendered_append:
  "rendered api signal section (xs @ ys) = rendered api signal section xs @ rendered api signal section ys"
  by (simp add: rendered_def fetched_append)

lemma slice_split:
  "a \<le> b \<Longrightarrow> b \<le> c \<Longrightarrow> slice xs a c = slice xs a b @ slice xs b c"
proof -
  assume ab: "a \<le> b" and bc: "b \<le> c"
  have "take (c - a) (drop a xs) = take ((b - a) + (c - b)) (drop a xs)"
    using ab bc by simp
  also have "\<dots> = take (b - a) (drop a xs) @ take (c - b) (drop (b - a) (drop a xs))"
    by (rule take_add)
  also have "drop (b - a) (drop a xs) = drop b xs"
    using ab by simp
  finally show ?thesis by (simp add: slice_def)
qed

lemma slice_subseq_drop: "subseq (slice xs a b) (drop a xs)"
  unfolding slice_def by (metis append_take_drop_id subseq_order.order_refl subseq_rev_drop_many)

lemma rendered_subseq: "subseq xs ys \<Longrightarrow> subseq (rendered api signal sec xs) (rendered api signal sec ys)"
  unfolding rendered_def fetched_def List.map_filter_def
  by (intro subseq_filter subseq_map)

lemma set_slice: "set (slice xs a b) \<subseteq> set xs"
  unfolding slice_def by (meson set_take_subset set_drop_subset subset_trans)

lemma slice_drop: "a \<le> b \<Longrightarrow> slice xs a b @ drop b xs = drop a xs"
  unfolding slice_def
  by (metis append_take_drop_id drop_drop le_add_diff_inverse2)

lemma subseq_distinct: "subseq xs ys \<Longrightarrow> distinct ys \<Longrightarrow> distinct xs"
  by (auto simp: subseq_conv_nths)

lemma subseq_set: "subseq xs ys \<Longrightarrow> set xs \<subseteq> set ys"
  by (auto simp: subseq_conv_nths dest: in_set_nthsD)

text \<open>
  The invariant of the page loop: the cursor does not go back, the page grows by a
  subsequence of the shown items of the ids between the old cursor and the new, it never
  exceeds the page size, and the loop ends on a full page or past the end of the ids.
\<close>

lemma fetchFeedPage_while_props:
  "length pageItems \<le> PAGE_SIZE \<Longrightarrow>
   cursor \<le> nextFetchIndex (fetchFeedPage_while api ids sec signal cursor pageItems) \<and>
   (\<exists>ys. page_items (fetchFeedPage_while api ids sec signal cursor pageItems) = pageItems @ ys \<and>
         subseq ys (rendered api signal sec
                      (slice ids cursor (nextFetchIndex (fetchFeedPage_while api ids sec signal cursor pageItems))))) \<and>
   length (page_items (fetchFeedPage_while api ids sec signal cursor pageItems)) \<le> PAGE_SIZE \<and>
   (length (page_items (fetchFeedPage_while api ids sec signal cursor pageItems)) = PAGE_SIZE \<or>
    length ids \<le> nextFetchIndex (fetchFeedPage_while api ids sec signal cursor pageItems))"
proof (induction api ids sec signal cursor pageItems rule: fetchFeedPage_while.induct)
  case (1 api ids sec signal cursor pageItems)
  show ?case
  proof (cases "cursor < length ids \<and> length pageItems < PAGE_SIZE")
    case False
    have stop: "fetchFeedPage_while api ids sec signal cursor pageItems =
                  \<lparr>page_items = pageItems, nextFetchIndex = cursor\<rparr>"
      using False by (subst fetchFeedPage_while.simps) auto
    show ?thesis
      using False "1.prems" by (auto simp: stop slice_def rendered_def fetched_def List.map_filter_simps)
  next
    case True
    define chunk where "chunk = slice ids cursor (cursor + PAGE_SIZE)"
    define k where "k = PAGE_SIZE - length pageItems"
    define page1 where "page1 = fetchFeedPage_push sec (fetchItemsByIds api chunk signal (length chunk)) pageItems"
    define p where "p = fetchFeedPage_while api ids sec signal (cursor + PAGE_SIZE) page1"
    have ne: "length chunk \<noteq> 0"
      using True by (simp add: chunk_def slice_def PAGE_SIZE_def)
    have step: "fetchFeedPage_while api ids sec signal cursor pageItems = p"
      using True ne
      by (subst fetchFeedPage_while.simps) (simp add: p_def page1_def chunk_def Let_def)
    have page1: "page1 = pageItems @ take k (rendered api signal sec chunk)"
      using True
      by (simp add: page1_def fetchFeedPage_push_eq fetchItemsByIds_chunk rendered_live rendered_def k_def)
    have len1: "length page1 \<le> PAGE_SIZE"
      using True by (auto simp: page1 k_def)
    have ih: "cursor + PAGE_SIZE \<le> nextFetchIndex p \<and>
       (\<exists>ys. page_items p = page1 @ ys \<and>
         subseq ys (rendered api signal sec (slice ids (cursor + PAGE_SIZE) (nextFetchIndex p)))) \<and>
       length (page_items p) \<le> PAGE_SIZE \<and>
       (length (page_items p) = PAGE_SIZE \<or> length ids \<le> nextFetchIndex p)"
      unfolding p_def
      using "1.IH" [OF True refl _ refl refl] ne len1
      by (simp add: chunk_def page1_def)
    then obtain ys where ys: "page_items p = page1 @ ys"
      and sub: "subseq ys (rendered api signal sec (slice ids (cursor + PAGE_SIZE) (nextFetchIndex p)))"
      by blast
    have whole: "slice ids cursor (nextFetchIndex p) = chunk @ slice ids (cursor + PAGE_SIZE) (nextFetchIndex p)"
      unfolding chunk_def using ih by (intro slice_split) simp_all
    have "subseq (take k (rendered api signal sec chunk) @ ys)
            (rendered api signal sec chunk @
             rendered api signal sec (slice ids (cursor + PAGE_SIZE) (nextFetchIndex p)))"
      by (intro list_emb_append_mono sub) (metis append_take_drop_id subseq_order.order_refl list_emb_append2 subseq_rev_drop_many)
    then have "subseq (take k (rendered api signal sec chunk) @ ys)
            (rendered api signal sec (slice ids cursor (nextFetchIndex p)))"
      by (simp add: whole rendered_append)
    moreover have "page_items p = pageItems @ (take k (rendered api signal sec chunk) @ ys)"
      by (simp add: ys page1)
    ultimately show ?thesis
      using ih unfolding step by auto
  qed
qed

text \<open>
  The loop, exactly: the cursor moves by whole chunks, the page is the first \<open>PAGE_SIZE\<close>
  of what it held followed by the shown items of the ids the cursor has passed, and at
  every chunk boundary before the returned cursor the loop condition still held.
\<close>

lemma fetchFeedPage_while_exact:
  "length pageItems \<le> PAGE_SIZE \<Longrightarrow>
   (\<exists>k. nextFetchIndex (fetchFeedPage_while api ids sec signal cursor pageItems) = cursor + PAGE_SIZE * k) \<and>
   page_items (fetchFeedPage_while api ids sec signal cursor pageItems) =
     take PAGE_SIZE (pageItems @ rendered api signal sec
        (slice ids cursor (nextFetchIndex (fetchFeedPage_while api ids sec signal cursor pageItems)))) \<and>
   (\<forall>j. cursor + PAGE_SIZE * j < nextFetchIndex (fetchFeedPage_while api ids sec signal cursor pageItems) \<longrightarrow>
        cursor + PAGE_SIZE * j < length ids \<and>
        length (pageItems @ rendered api signal sec (slice ids cursor (cursor + PAGE_SIZE * j))) < PAGE_SIZE)"
proof (induction api ids sec signal cursor pageItems rule: fetchFeedPage_while.induct)
  case (1 api ids sec signal cursor pageItems)
  show ?case
  proof (cases "cursor < length ids \<and> length pageItems < PAGE_SIZE")
    case False
    have stop: "fetchFeedPage_while api ids sec signal cursor pageItems =
                  \<lparr>page_items = pageItems, nextFetchIndex = cursor\<rparr>"
      using False by (subst fetchFeedPage_while.simps) auto
    show ?thesis
      using "1.prems" by (simp add: stop slice_def rendered_def fetched_def List.map_filter_simps)
  next
    case True
    define chunk where "chunk = slice ids cursor (cursor + PAGE_SIZE)"
    define k0 where "k0 = PAGE_SIZE - length pageItems"
    define page1 where "page1 = fetchFeedPage_push sec (fetchItemsByIds api chunk signal (length chunk)) pageItems"
    define p where "p = fetchFeedPage_while api ids sec signal (cursor + PAGE_SIZE) page1"
    define R where "R = rendered api signal sec"
    have ne: "length chunk \<noteq> 0"
      using True by (simp add: chunk_def slice_def PAGE_SIZE_def)
    have step: "fetchFeedPage_while api ids sec signal cursor pageItems = p"
      using True ne
      by (subst fetchFeedPage_while.simps) (simp add: p_def page1_def chunk_def Let_def)
    have page1: "page1 = pageItems @ take k0 (R chunk)"
      using True
      by (simp add: page1_def fetchFeedPage_push_eq fetchItemsByIds_chunk rendered_live rendered_def k0_def R_def)
    have len1: "length page1 \<le> PAGE_SIZE"
      using True by (auto simp: page1 k0_def)
    have ih: "(\<exists>k. nextFetchIndex p = cursor + PAGE_SIZE + PAGE_SIZE * k) \<and>
       page_items p = take PAGE_SIZE (page1 @ R (slice ids (cursor + PAGE_SIZE) (nextFetchIndex p))) \<and>
       (\<forall>j. cursor + PAGE_SIZE + PAGE_SIZE * j < nextFetchIndex p \<longrightarrow>
            cursor + PAGE_SIZE + PAGE_SIZE * j < length ids \<and>
            length (page1 @ R (slice ids (cursor + PAGE_SIZE) (cursor + PAGE_SIZE + PAGE_SIZE * j))) < PAGE_SIZE)"
      unfolding p_def R_def
      using "1.IH" [OF True refl _ refl refl] ne len1
      by (simp add: chunk_def page1_def)
    then obtain k where k: "nextFetchIndex p = cursor + PAGE_SIZE + PAGE_SIZE * k" by blast
    have whole: "slice ids cursor (cursor + PAGE_SIZE + m) = chunk @ slice ids (cursor + PAGE_SIZE) (cursor + PAGE_SIZE + m)" for m
      unfolding chunk_def by (intro slice_split) simp_all
    have Rwhole: "R (slice ids cursor (cursor + PAGE_SIZE + m)) =
                  R chunk @ R (slice ids (cursor + PAGE_SIZE) (cursor + PAGE_SIZE + m))" for m
      by (simp add: whole R_def rendered_append)
    have c1: "\<exists>k'. nextFetchIndex p = cursor + PAGE_SIZE * k'"
      by (rule exI [of _ "Suc k"]) (simp add: k)
    have c2: "page_items p = take PAGE_SIZE (pageItems @ R (slice ids cursor (nextFetchIndex p)))"
    proof (cases "length (R chunk) < k0")
      case True
      then show ?thesis
        using ih by (simp add: k Rwhole page1)
    next
      case False
      then have full: "length page1 = PAGE_SIZE"
        using \<open>cursor < length ids \<and> length pageItems < PAGE_SIZE\<close> by (simp add: page1 k0_def)
      have "page_items p = page1"
        using ih full by simp
      also have "\<dots> = take PAGE_SIZE (pageItems @ R (slice ids cursor (nextFetchIndex p)))"
        using False \<open>cursor < length ids \<and> length pageItems < PAGE_SIZE\<close>
        by (simp add: k Rwhole page1 k0_def)
      finally show ?thesis .
    qed
    have c3: "cursor + PAGE_SIZE * j < length ids \<and>
              length (pageItems @ R (slice ids cursor (cursor + PAGE_SIZE * j))) < PAGE_SIZE"
      if lt: "cursor + PAGE_SIZE * j < nextFetchIndex p" for j
    proof (cases j)
      case 0
      then show ?thesis
        using True by (simp add: slice_def R_def rendered_def fetched_def List.map_filter_simps)
    next
      case (Suc j')
      have lt': "cursor + PAGE_SIZE + PAGE_SIZE * j' < nextFetchIndex p"
        using lt Suc by simp
      from ih lt' have a: "cursor + PAGE_SIZE + PAGE_SIZE * j' < length ids"
        and b: "length (page1 @ R (slice ids (cursor + PAGE_SIZE) (cursor + PAGE_SIZE + PAGE_SIZE * j'))) < PAGE_SIZE"
        by blast+
      from b have short: "length page1 < PAGE_SIZE" by simp
      have "length (R chunk) < k0"
      proof (rule ccontr)
        assume "\<not> length (R chunk) < k0"
        then have "length page1 = PAGE_SIZE"
          using True by (simp add: page1 k0_def)
        with short show False by simp
      qed
      then have p1: "page1 = pageItems @ R chunk" by (simp add: page1)
      have eq: "cursor + PAGE_SIZE * j = cursor + PAGE_SIZE + PAGE_SIZE * j'"
        by (simp add: Suc)
      have len: "length (pageItems @ R (slice ids cursor (cursor + PAGE_SIZE + PAGE_SIZE * j'))) =
                 length (page1 @ R (slice ids (cursor + PAGE_SIZE) (cursor + PAGE_SIZE + PAGE_SIZE * j')))"
        by (simp only: Rwhole p1 append_assoc)
      show ?thesis
        unfolding eq len using a b by blast
    qed
    show ?thesis
      unfolding step using c1 c2 c3 by (simp add: R_def)
  qed
qed

lemma fetchFeedPage_rendered:
  "subseq (page_items (fetchFeedPage api ids sec start signal))
     (rendered api signal sec (slice ids start (nextFetchIndex (fetchFeedPage api ids sec start signal))))"
  using fetchFeedPage_while_props [of "[]" start api ids sec signal]
  by (auto simp: fetchFeedPage_def)

lemma fetchFeedPage_shown:
  "item \<in> set (page_items (fetchFeedPage api ids sec start signal)) \<Longrightarrow> shouldRenderInSection item sec"
  using subseq_set [OF fetchFeedPage_rendered [of api ids sec start signal]]
  by (auto simp: rendered_def)

lemma fetchFeedPage_cursor:
  "start \<le> nextFetchIndex (fetchFeedPage api ids sec start signal)"
  using fetchFeedPage_while_props [of "[]" start api ids sec signal]
  by (simp add: fetchFeedPage_def)

lemma fetchItemById_Some:
  "catch_null (fetchItemById api i signal) = Some it \<Longrightarrow>
   \<exists>st. api i = Response st (Some (Some it)) \<and> (\<exists>n. item_id it = Number n)"
  by (cases "item_id it")
     (auto simp: catch_null_def fetchItemById_def fetchJson_def
           split: sum.splits option.splits if_splits response.splits)

lemma fetched_ids:
  "echoes api ids \<Longrightarrow> subseq (map item_id (fetched api signal ids)) (map Number ids)"
proof (induction ids)
  case Nil
  then show ?case by (simp add: fetched_def List.map_filter_simps)
next
  case (Cons i ids)
  then have ih: "subseq (map item_id (fetched api signal ids)) (map Number ids)"
    by (simp add: echoes_def)
  show ?case
  proof (cases "catch_null (fetchItemById api i signal)")
    case None
    with ih show ?thesis by (simp add: fetched_Cons list_emb_Cons)
  next
    case (Some it)
    from fetchItemById_Some [OF Some] obtain st where "api i = Response st (Some (Some it))"
      by blast
    with Cons.prems have "item_id it = Number i" by (simp add: echoes_def)
    with Some ih show ?thesis by (simp add: fetched_Cons)
  qed
qed

lemma echoes_subset: "echoes api ids \<Longrightarrow> set xs \<subseteq> set ids \<Longrightarrow> echoes api xs"
  by (auto simp: echoes_def list_all_iff)

lemma rendered_ids:
  "echoes api ids \<Longrightarrow> subseq (map item_id (rendered api signal sec ids)) (map Number ids)"
proof -
  assume e: "echoes api ids"
  have "subseq (map item_id (rendered api signal sec ids)) (map item_id (fetched api signal ids))"
    unfolding rendered_def by (intro subseq_map subseq_filter_left)
  with fetched_ids [OF e] show ?thesis
    by (rule subseq_order.trans [rotated])
qed

lemma fetchFeedPage_ids:
  "echoes api ids \<Longrightarrow>
   subseq (map item_id (page_items (fetchFeedPage api ids sec start signal)))
     (map Number (slice ids start (nextFetchIndex (fetchFeedPage api ids sec start signal))))"
proof -
  assume e: "echoes api ids"
  define p where "p = fetchFeedPage api ids sec start signal"
  from fetchFeedPage_while_props [of "[]" start api ids sec signal]
  have "subseq (page_items p) (rendered api signal sec (slice ids start (nextFetchIndex p)))"
    by (auto simp: p_def fetchFeedPage_def)
  then have "subseq (map item_id (page_items p))
               (map item_id (rendered api signal sec (slice ids start (nextFetchIndex p))))"
    by (rule subseq_map)
  moreover have "subseq (map item_id (rendered api signal sec (slice ids start (nextFetchIndex p))))
                   (map Number (slice ids start (nextFetchIndex p)))"
    by (rule rendered_ids [OF echoes_subset [OF e set_slice]])
  ultimately show ?thesis
    unfolding p_def by (rule subseq_order.trans)
qed

lemma fetchFeedPages_ids:
  "list_all (\<lambda>call. echoes (fst call) ids) calls \<Longrightarrow>
   subseq (map item_id (concat (map page_items (fetchFeedPages calls ids sec start))))
     (map Number (drop start ids))"
proof (induction calls arbitrary: start)
  case Nil
  then show ?case by simp
next
  case (Cons call calls)
  define p where "p = fetchFeedPage (fst call) ids sec start (snd call)"
  have e: "echoes (fst call) ids" and rest: "list_all (\<lambda>call. echoes (fst call) ids) calls"
    using Cons.prems by simp_all
  have le: "start \<le> nextFetchIndex p"
    unfolding p_def by (rule fetchFeedPage_cursor)
  have first: "subseq (map item_id (page_items p)) (map Number (slice ids start (nextFetchIndex p)))"
    unfolding p_def by (rule fetchFeedPage_ids [OF e])
  have later: "subseq (map item_id (concat (map page_items (fetchFeedPages calls ids sec (nextFetchIndex p)))))
                 (map Number (drop (nextFetchIndex p) ids))"
    by (rule Cons.IH [OF rest])
  have "subseq (map item_id (page_items p) @
                map item_id (concat (map page_items (fetchFeedPages calls ids sec (nextFetchIndex p)))))
          (map Number (slice ids start (nextFetchIndex p)) @ map Number (drop (nextFetchIndex p) ids))"
    by (rule list_emb_append_mono [OF first later])
  also have "map Number (slice ids start (nextFetchIndex p)) @ map Number (drop (nextFetchIndex p) ids) =
             map Number (drop start ids)"
    by (simp add: slice_drop [OF le] flip: map_append)
  finally show ?case
    by (simp add: p_def Let_def)
qed

lemma fetchFeedPages_cursors:
  "sorted (start # map nextFetchIndex (fetchFeedPages calls ids sec start))"
proof (induction calls arbitrary: start)
  case Nil
  then show ?case by simp
next
  case (Cons call calls)
  define c where "c = nextFetchIndex (fetchFeedPage (fst call) ids sec start (snd call))"
  have le: "start \<le> c" unfolding c_def by (rule fetchFeedPage_cursor)
  have "sorted (c # map nextFetchIndex (fetchFeedPages calls ids sec c))"
    by (rule Cons.IH)
  with le show ?case
    by (auto simp: c_def Let_def)
qed

text \<open>
  Pages and batches run on the example upstreams.
\<close>

lemma dup_run:
  "fetchFeedPages [(story_api, AbortSignal False)] [7, 7] Top 0 =
     [\<lparr>page_items = [item_of 7 Story [], item_of 7 Story []], nextFetchIndex = 30\<rparr>]"
  by code_simp

lemma three_run:
  "fetchFeedPages [(story_api, AbortSignal False), (story_api, AbortSignal False)] [1, 2, 3] Top 0 =
     [\<lparr>page_items = [item_of 1 Story [], item_of 2 Story [], item_of 3 Story []], nextFetchIndex = 30\<rparr>,
      \<lparr>page_items = [], nextFetchIndex = 30\<rparr>]"
  by code_simp

lemma flagged_batch:
  "fetchItemsByIds flagged_api [1, 2, 3, 4] (AbortSignal False) 4 = [item_of 1 Story [], item_of 4 Story []]"
  by code_simp

lemma flagged_page:
  "fetchFeedPage flagged_api [1, 2, 3, 4] Top 0 (AbortSignal False) =
     \<lparr>page_items = [item_of 1 Story [], item_of 4 Story []], nextFetchIndex = 30\<rparr>"
  by code_simp

lemma jobs_page:
  "fetchFeedPage jobs_api [1, 2, 3] Jobs 0 (AbortSignal False) =
     \<lparr>page_items = [item_of 1 Job [], item_of 3 Job []], nextFetchIndex = 30\<rparr>"
  by code_simp

lemma past_ids:
  "fetchStoryIds lists_api Past (AbortSignal False) =
     Inr [1, 2, 3, 4, 5, 6, 7, 8, 9, 10, 11, 12, 13, 14, 15, 16, 17, 18, 19, 20, 21, 22,
          23, 24, 25, 26, 27, 28, 29, 30, 31, 32]"
  by code_simp

lemma past_page:
  "fetchFeedPage story_api
     [1, 2, 3, 4, 5, 6, 7, 8, 9, 10, 11, 12, 13, 14, 15, 16, 17, 18, 19, 20, 21, 22,
      23, 24, 25, 26, 27, 28, 29, 30, 31, 32] Past 30 (AbortSignal False) =
     \<lparr>page_items = [item_of 31 Story [], item_of 32 Story []], nextFetchIndex = 60\<rparr>"
  by code_simp

lemma stale_run:
  "fetchFeedPages [(stale_api, AbortSignal False)] [1, 2] Top 0 =
     [\<lparr>page_items = [item_of 99 Story [], item_of 99 Story []], nextFetchIndex = 30\<rparr>]"
  by code_simp

lemma late_page:
  "fetchFeedPage late_story_api
     [1, 2, 3, 4, 5, 6, 7, 8, 9, 10, 11, 12, 13, 14, 15, 16, 17, 18, 19, 20, 21, 22,
      23, 24, 25, 26, 27, 28, 29, 30, 31] Top 0 (AbortSignal False) =
     \<lparr>page_items = [item_of 31 Story []], nextFetchIndex = 60\<rparr>"
  by code_simp

text \<open>
  Claim C1 (pagination idempotence), as amended. In a chain of page fetches over an id
  list \<open>L\<close>, each starting at the cursor the one before returned, every returned cursor is
  at least the start index of its call, so the cursors never go back. When every upstream
  of the chain answers an id of \<open>L\<close> only with an item that carries that id, the ids of the
  items of all pages, taken together in order, form a subsequence of \<open>L\<close>: the relative
  order of \<open>L\<close> is preserved, for every \<open>L\<close>. When, in addition, \<open>L\<close> has no repeated id,
  they have no duplicate.
\<close>

theorem pagination_chain:
  "sorted (startIndex # map nextFetchIndex (fetchFeedPages calls L sec startIndex)) \<and>
   (list_all (\<lambda>call. echoes (fst call) L) calls \<longrightarrow>
      subseq (map item_id (concat (map page_items (fetchFeedPages calls L sec startIndex))))
        (map Number L)) \<and>
   (distinct L \<and> list_all (\<lambda>call. echoes (fst call) L) calls \<longrightarrow>
      distinct (map item_id (concat (map page_items (fetchFeedPages calls L sec startIndex)))))"
proof -
  have cursors: "sorted (startIndex # map nextFetchIndex (fetchFeedPages calls L sec startIndex))"
    by (rule fetchFeedPages_cursors)
  have sub: "subseq (map item_id (concat (map page_items (fetchFeedPages calls L sec startIndex))))
        (map Number L)"
    if e: "list_all (\<lambda>call. echoes (fst call) L) calls"
  proof -
    have "subseq (map item_id (concat (map page_items (fetchFeedPages calls L sec startIndex))))
               (map Number (drop startIndex L))"
      by (rule fetchFeedPages_ids [OF e])
    moreover have "subseq (map Number (drop startIndex L)) (map Number L)"
      by (intro subseq_map) (metis append_take_drop_id list_emb_append2 subseq_order.order_refl)
    ultimately show ?thesis
      by (rule subseq_order.trans)
  qed
  have nodup: "distinct (map item_id (concat (map page_items (fetchFeedPages calls L sec startIndex))))"
    if h: "distinct L \<and> list_all (\<lambda>call. echoes (fst call) L) calls"
  proof -
    have "distinct (map Number L)"
      using h by (simp add: distinct_map inj_on_def)
    with sub [OF conjunct2 [OF h]] show ?thesis
      by (rule subseq_distinct)
  qed
  show ?thesis
    by (rule conjI [OF cursors conjI [OF impI [OF sub] impI [OF nodup]]])
qed

text \<open>
  The claim as first stated, for any id list and with nothing said of the upstream, fails
  twice. On the list \<open>[7, 7]\<close> the one page holds story 7 twice. On the list \<open>[1, 2]\<close>,
  which has no repeated id, an upstream that answers both ids with story 99 gives a page
  with the id 99 twice, which is no subsequence of the list: the page fetch neither
  removes duplicates nor compares the id of an item with the id it asked for.
\<close>

theorem pagination_chain_counterexample:
  "\<not> distinct (map item_id (concat (map page_items
        (fetchFeedPages [(story_api, AbortSignal False)] [7, 7] Top 0)))) \<and>
   distinct [1, 2 :: int] \<and>
   \<not> distinct (map item_id (concat (map page_items
        (fetchFeedPages [(stale_api, AbortSignal False)] [1, 2] Top 0)))) \<and>
   \<not> subseq (map item_id (concat (map page_items
        (fetchFeedPages [(stale_api, AbortSignal False)] [1, 2] Top 0)))) (map Number [1, 2])"
  unfolding dup_run stale_run by (simp add: item_of_def)

text \<open>
  Two chained calls over the ids 1, 2, 3 of stories: the first page holds the three, the
  second is empty, and both cursors are 30. And on the list \<open>[7, 7]\<close>, with its repeated id,
  the order is still that of the list.
\<close>

theorem pagination_chain_witness:
  "distinct [1, 2, 3 :: int] \<and>
   list_all (\<lambda>call. echoes (fst call) [1, 2, 3])
     [(story_api, AbortSignal False), (story_api, AbortSignal False)] \<and>
   map item_id (concat (map page_items
     (fetchFeedPages [(story_api, AbortSignal False), (story_api, AbortSignal False)] [1, 2, 3] Top 0))) =
     [Number 1, Number 2, Number 3] \<and>
   subseq [Number 1, Number 2, Number 3] (map Number [1, 2, 3]) \<and>
   distinct [Number 1, Number 2, Number 3] \<and>
   sorted (0 # map nextFetchIndex
     (fetchFeedPages [(story_api, AbortSignal False), (story_api, AbortSignal False)] [1, 2, 3] Top 0)) \<and>
   list_all (\<lambda>call. echoes (fst call) [7, 7]) [(story_api, AbortSignal False)] \<and>
   subseq (map item_id (concat (map page_items
     (fetchFeedPages [(story_api, AbortSignal False)] [7, 7] Top 0)))) (map Number [7, 7])"
proof -
  have d: "distinct [1, 2, 3 :: int]" by simp
  have e: "list_all (\<lambda>call. echoes (fst call) [1, 2, 3])
     [(story_api, AbortSignal False), (story_api, AbortSignal False)]"
    by (simp add: echoes_def story_api_def item_of_def)
  have e7: "list_all (\<lambda>call. echoes (fst call) [7, 7]) [(story_api, AbortSignal False)]"
    by (simp add: echoes_def story_api_def item_of_def)
  have ids: "map item_id (concat (map page_items
     (fetchFeedPages [(story_api, AbortSignal False), (story_api, AbortSignal False)] [1, 2, 3] Top 0))) =
     [Number 1, Number 2, Number 3]"
    unfolding three_run by (simp add: item_of_def)
  note t = pagination_chain [of 0 "[(story_api, AbortSignal False), (story_api, AbortSignal False)]" "[1, 2, 3]" Top]
  note t7 = pagination_chain [of 0 "[(story_api, AbortSignal False)]" "[7, 7]" Top]
  have c: "sorted (0 # map nextFetchIndex
     (fetchFeedPages [(story_api, AbortSignal False), (story_api, AbortSignal False)] [1, 2, 3] Top 0))"
    by (rule conjunct1 [OF t])
  have s: "subseq [Number 1, Number 2, Number 3] (map Number [1, 2, 3])"
    using mp [OF conjunct1 [OF conjunct2 [OF t]] e] by (simp only: ids)
  have n: "distinct [Number 1, Number 2, Number 3]"
    using mp [OF conjunct2 [OF conjunct2 [OF t]] conjI [OF d e]] by (simp only: ids)
  have s7: "subseq (map item_id (concat (map page_items
     (fetchFeedPages [(story_api, AbortSignal False)] [7, 7] Top 0)))) (map Number [7, 7])"
    by (rule mp [OF conjunct1 [OF conjunct2 [OF t7]] e7])
  show ?thesis
    by (rule conjI [OF d conjI [OF e conjI [OF ids conjI [OF s conjI [OF n conjI [OF c conjI [OF e7 s7]]]]]]])
qed

text \<open>
  Claim C3 (suppression filter). An item whose \<open>dead\<close> or \<open>deleted\<close> flag is true is in
  no batch that \<open>fetchItemsByIds\<close> returns, passes \<open>shouldRenderInSection\<close> for no section
  and so is on no page that \<open>fetchFeedPage\<close> returns, and is the item of no node, at any
  depth, of a forest that \<open>buildCommentTree\<close> returns.
\<close>

theorem suppression_filter:
  "(\<forall>item \<in> set (fetchItemsByIds api ids signal maxItems).
      \<not> truthy (item_dead item) \<and> \<not> truthy (item_deleted item)) \<and>
   (shouldRenderInSection item sec \<longrightarrow> \<not> truthy (item_dead item) \<and> \<not> truthy (item_deleted item)) \<and>
   (\<forall>item \<in> set (page_items (fetchFeedPage api ids sec startIndex signal)).
      \<not> truthy (item_dead item) \<and> \<not> truthy (item_deleted item)) \<and>
   (\<forall>(d, n) \<in> set (forest_depths depth (buildCommentTree api ids signal depth)).
      \<not> truthy (item_dead (node_item n)) \<and> \<not> truthy (item_deleted (node_item n)))"
proof -
  have a: "\<not> truthy (item_dead x) \<and> \<not> truthy (item_deleted x)" if "live x" for x
    using that by (simp add: live_def)
  have batch: "\<forall>item \<in> set (fetchItemsByIds api ids signal maxItems).
      \<not> truthy (item_dead item) \<and> \<not> truthy (item_deleted item)"
    by (intro ballI a fetchItemsByIds_live)
  have shown: "shouldRenderInSection item sec \<longrightarrow>
      \<not> truthy (item_dead item) \<and> \<not> truthy (item_deleted item)"
    by (intro impI a shouldRender_live)
  have page: "\<forall>item \<in> set (page_items (fetchFeedPage api ids sec startIndex signal)).
      \<not> truthy (item_dead item) \<and> \<not> truthy (item_deleted item)"
    by (intro ballI a shouldRender_live fetchFeedPage_shown)
  have tree: "\<forall>(d, n) \<in> set (forest_depths depth (buildCommentTree api ids signal depth)).
      \<not> truthy (item_dead (node_item n)) \<and> \<not> truthy (item_deleted (node_item n))"
  proof (clarify)
    fix d n
    assume mem: "(d, n) \<in> set (forest_depths depth (buildCommentTree api ids signal depth))"
    have "isValidComment (node_item n)"
      using buildCommentTree_nodes [OF mem] by simp
    then show "\<not> truthy (item_dead (node_item n)) \<and> \<not> truthy (item_deleted (node_item n))"
      by (simp add: isValidComment_def)
  qed
  show ?thesis by (rule conjI [OF batch conjI [OF shown conjI [OF page tree]]])
qed

text \<open>
  Of the stories 1 to 4, with 2 dead and 3 deleted, the batch and the page hold 1 and 4.
\<close>

theorem suppression_filter_witness:
  "fetchItemsByIds flagged_api [1, 2, 3, 4] (AbortSignal False) 4 = [item_of 1 Story [], item_of 4 Story []] \<and>
   page_items (fetchFeedPage flagged_api [1, 2, 3, 4] Top 0 (AbortSignal False)) =
     [item_of 1 Story [], item_of 4 Story []] \<and>
   shouldRenderInSection (item_of 1 Story []) Top \<and>
   \<not> truthy (item_dead (item_of 1 Story [])) \<and> \<not> truthy (item_deleted (item_of 1 Story [])) \<and>
   (3, HNCommentNode (item_of 1 Comment [2]) [HNCommentNode (item_of 2 Comment [3]) []])
     \<in> set (forest_depths 3 (buildCommentTree chain_api [1] (AbortSignal False) 3)) \<and>
   \<not> truthy (item_dead (item_of 1 Comment [2]))"
proof -
  have r: "shouldRenderInSection (item_of 1 Story []) Top"
    by (simp add: shouldRenderInSection_def item_of_def truthy_def)
  have mem: "(3, HNCommentNode (item_of 1 Comment [2]) [HNCommentNode (item_of 2 Comment [3]) []])
     \<in> set (forest_depths 3 (buildCommentTree chain_api [1] (AbortSignal False) 3))"
    by (simp add: chain_run_3 forest_depths_def)
  have a: "item_of 1 Story [] \<in> set (fetchItemsByIds flagged_api [1, 2, 3, 4] (AbortSignal False) 4)"
    by (simp add: flagged_batch)
  note t = suppression_filter [of flagged_api "[1, 2, 3, 4]" "AbortSignal False" 4 "item_of 1 Story []" Top 0 3]
  note t' = suppression_filter [of chain_api "[1]" "AbortSignal False" 4 "item_of 1 Story []" Top 0 3]
  have live1: "\<not> truthy (item_dead (item_of 1 Story [])) \<and> \<not> truthy (item_deleted (item_of 1 Story []))"
    by (rule bspec [OF conjunct1 [OF t] a])
  have live2: "\<not> truthy (item_dead (item_of 1 Comment [2]))"
    using bspec [OF t' [THEN conjunct2, THEN conjunct2, THEN conjunct2] mem]
    by (simp only: prod.case HNCommentNode.sel simp_thms)
  have page: "page_items (fetchFeedPage flagged_api [1, 2, 3, 4] Top 0 (AbortSignal False)) =
     [item_of 1 Story [], item_of 4 Story []]"
    unfolding flagged_page by simp
  show ?thesis
    by (intro conjI flagged_batch page r conjunct1 [OF live1] conjunct2 [OF live1] mem live2)
qed

lemma shouldRenderInSection_cases:
  "shouldRenderInSection item sec =
     (\<not> truthy (item_dead item) \<and> \<not> truthy (item_deleted item) \<and>
      (case sec of
         Jobs \<Rightarrow> item_type item = Some Job
       | Comments \<Rightarrow> item_type item = Some Comment \<and> (\<exists>t. item_text item = Some t \<and> t \<noteq> [])
       | _ \<Rightarrow> item_type item = Some Story \<or> item_type item = Some Poll))"
  by (cases sec) (auto simp: shouldRenderInSection_def truthy_string_def split: option.splits)

lemma loadFeed_fresh:
  "sec \<noteq> Submit \<Longrightarrow>
   forceFresh \<or> snd (readTimedCache (snd w) sec FEED_CACHE_TTL_MS nowRead) = None \<Longrightarrow>
   fetchStoryIds listApi sec signalAtIds = Inr allIds \<Longrightarrow>
   \<not> aborted signalAtIds \<Longrightarrow> \<not> aborted signalAtPage \<Longrightarrow>
   fv_ids (fst (loadFeed listApi api sec forceFresh signalAtIds signalAtPage nowRead nowWrite w)) = allIds \<and>
   fv_items (fst (loadFeed listApi api sec forceFresh signalAtIds signalAtPage nowRead nowWrite w)) =
     page_items (fetchFeedPage api allIds sec (if sec = Past then 30 else 0) signalAtPage) \<and>
   fv_nextFetchIndex (fst (loadFeed listApi api sec forceFresh signalAtIds signalAtPage nowRead nowWrite w)) =
     nextFetchIndex (fetchFeedPage api allIds sec (if sec = Past then 30 else 0) signalAtPage)"
  by (auto simp: loadFeed_def Let_def MAX_FRONT_PAGE_STORIES_def split: option.splits)

text \<open>
  Claim C8 (page assembly). A page that \<open>fetchFeedPage\<close> returns holds at most 30 items;
  each of them qualifies for the section, where an item qualifies exactly when it is
  neither dead nor deleted and is a job (for jobs), a comment with a non-empty text (for
  comments), or a story or poll (for any other section); the page is a subsequence of the
  qualifying items of the ids from the start index on, so what does not qualify is dropped
  and not counted. Chunks of 30 ids are pulled until the page holds 30 items or the list
  is exhausted: the returned cursor is the start index plus a number of whole chunks, it
  ends on a full page or past the end of the id list, at every chunk boundary before it
  ids were left and fewer than 30 qualifying items had been met, and the page is the
  first 30 of the qualifying items of the ids between the start index and the cursor. So
  a page of fewer than 30 items holds every qualifying item from the start index on. A
  load of the feed that fetches (nothing cached or a forced refresh, the resolver answers,
  nothing aborted) shows the page fetched from start index 30 for the past section and
  from 0 for the others.
\<close>

theorem fetchFeedPage_assembly:
  "(length (page_items (fetchFeedPage api ids sec startIndex signal)) \<le> 30) \<and>
   (\<forall>item \<in> set (page_items (fetchFeedPage api ids sec startIndex signal)).
      shouldRenderInSection item sec) \<and>
   (subseq (page_items (fetchFeedPage api ids sec startIndex signal))
     (rendered api signal sec (drop startIndex ids))) \<and>
   (length (page_items (fetchFeedPage api ids sec startIndex signal)) = 30 \<or>
    length ids \<le> nextFetchIndex (fetchFeedPage api ids sec startIndex signal)) \<and>
   (\<exists>k. nextFetchIndex (fetchFeedPage api ids sec startIndex signal) = startIndex + 30 * k) \<and>
   (page_items (fetchFeedPage api ids sec startIndex signal) =
     take 30 (rendered api signal sec
       (slice ids startIndex (nextFetchIndex (fetchFeedPage api ids sec startIndex signal))))) \<and>
   (\<forall>j. startIndex + 30 * j < nextFetchIndex (fetchFeedPage api ids sec startIndex signal) \<longrightarrow>
      startIndex + 30 * j < length ids \<and>
      length (rendered api signal sec (slice ids startIndex (startIndex + 30 * j))) < 30) \<and>
   (length (page_items (fetchFeedPage api ids sec startIndex signal)) < 30 \<longrightarrow>
      page_items (fetchFeedPage api ids sec startIndex signal) =
        rendered api signal sec (drop startIndex ids)) \<and>
   (shouldRenderInSection item sec =
     (\<not> truthy (item_dead item) \<and> \<not> truthy (item_deleted item) \<and>
      (case sec of
         Jobs \<Rightarrow> item_type item = Some Job
       | Comments \<Rightarrow> item_type item = Some Comment \<and> (\<exists>t. item_text item = Some t \<and> t \<noteq> [])
       | _ \<Rightarrow> item_type item = Some Story \<or> item_type item = Some Poll))) \<and>
   (sec \<noteq> Submit \<and>
    (forceFresh \<or> snd (readTimedCache (snd w) sec FEED_CACHE_TTL_MS nowRead) = None) \<and>
    fetchStoryIds listApi sec signalAtIds = Inr allIds \<and>
    \<not> aborted signalAtIds \<and> \<not> aborted signalAtPage \<longrightarrow>
      fv_ids (fst (loadFeed listApi api sec forceFresh signalAtIds signalAtPage nowRead nowWrite w)) = allIds \<and>
      fv_items (fst (loadFeed listApi api sec forceFresh signalAtIds signalAtPage nowRead nowWrite w)) =
        page_items (fetchFeedPage api allIds sec (if sec = Past then 30 else 0) signalAtPage) \<and>
      fv_nextFetchIndex (fst (loadFeed listApi api sec forceFresh signalAtIds signalAtPage nowRead nowWrite w)) =
        nextFetchIndex (fetchFeedPage api allIds sec (if sec = Past then 30 else 0) signalAtPage))"
proof -
  have c1: "length (page_items (fetchFeedPage api ids sec startIndex signal)) \<le> 30"
    using fetchFeedPage_while_props [of "[]" startIndex api ids sec signal]
    by (simp add: fetchFeedPage_def PAGE_SIZE_def)
  have c2: "\<forall>item \<in> set (page_items (fetchFeedPage api ids sec startIndex signal)).
      shouldRenderInSection item sec"
    by (intro ballI fetchFeedPage_shown)
  have c3: "subseq (page_items (fetchFeedPage api ids sec startIndex signal))
     (rendered api signal sec (drop startIndex ids))"
    using fetchFeedPage_rendered rendered_subseq [OF slice_subseq_drop]
    by (rule subseq_order.trans)
  have c4: "length (page_items (fetchFeedPage api ids sec startIndex signal)) = 30 \<or>
    length ids \<le> nextFetchIndex (fetchFeedPage api ids sec startIndex signal)"
    using fetchFeedPage_while_props [of "[]" startIndex api ids sec signal]
    by (simp add: fetchFeedPage_def PAGE_SIZE_def)
  have c5: "\<exists>k. nextFetchIndex (fetchFeedPage api ids sec startIndex signal) = startIndex + 30 * k"
    using fetchFeedPage_while_exact [of "[]" api ids sec signal startIndex]
    by (simp add: fetchFeedPage_def PAGE_SIZE_def)
  have c6: "page_items (fetchFeedPage api ids sec startIndex signal) =
     take 30 (rendered api signal sec
       (slice ids startIndex (nextFetchIndex (fetchFeedPage api ids sec startIndex signal))))"
    using fetchFeedPage_while_exact [of "[]" api ids sec signal startIndex]
    by (simp add: fetchFeedPage_def PAGE_SIZE_def)
  have c7: "\<forall>j. startIndex + 30 * j < nextFetchIndex (fetchFeedPage api ids sec startIndex signal) \<longrightarrow>
      startIndex + 30 * j < length ids \<and>
      length (rendered api signal sec (slice ids startIndex (startIndex + 30 * j))) < 30"
    using fetchFeedPage_while_exact [of "[]" api ids sec signal startIndex]
    by (simp add: fetchFeedPage_def PAGE_SIZE_def)
  have c8: "length (page_items (fetchFeedPage api ids sec startIndex signal)) < 30 \<longrightarrow>
      page_items (fetchFeedPage api ids sec startIndex signal) =
        rendered api signal sec (drop startIndex ids)"
  proof
    assume short: "length (page_items (fetchFeedPage api ids sec startIndex signal)) < 30"
    with c4 have past: "length ids \<le> nextFetchIndex (fetchFeedPage api ids sec startIndex signal)"
      by simp
    then have whole: "slice ids startIndex (nextFetchIndex (fetchFeedPage api ids sec startIndex signal)) = drop startIndex ids"
      by (simp add: slice_def)
    from short have "length (rendered api signal sec (drop startIndex ids)) < 30"
      by (subst (asm) c6) (simp add: whole)
    then show "page_items (fetchFeedPage api ids sec startIndex signal) =
        rendered api signal sec (drop startIndex ids)"
      by (subst c6) (simp add: whole)
  qed
  have c9: "shouldRenderInSection item sec =
     (\<not> truthy (item_dead item) \<and> \<not> truthy (item_deleted item) \<and>
      (case sec of
         Jobs \<Rightarrow> item_type item = Some Job
       | Comments \<Rightarrow> item_type item = Some Comment \<and> (\<exists>t. item_text item = Some t \<and> t \<noteq> [])
       | _ \<Rightarrow> item_type item = Some Story \<or> item_type item = Some Poll))"
    by (rule shouldRenderInSection_cases)
  have c10: "sec \<noteq> Submit \<and>
    (forceFresh \<or> snd (readTimedCache (snd w) sec FEED_CACHE_TTL_MS nowRead) = None) \<and>
    fetchStoryIds listApi sec signalAtIds = Inr allIds \<and>
    \<not> aborted signalAtIds \<and> \<not> aborted signalAtPage \<longrightarrow>
      fv_ids (fst (loadFeed listApi api sec forceFresh signalAtIds signalAtPage nowRead nowWrite w)) = allIds \<and>
      fv_items (fst (loadFeed listApi api sec forceFresh signalAtIds signalAtPage nowRead nowWrite w)) =
        page_items (fetchFeedPage api allIds sec (if sec = Past then 30 else 0) signalAtPage) \<and>
      fv_nextFetchIndex (fst (loadFeed listApi api sec forceFresh signalAtIds signalAtPage nowRead nowWrite w)) =
        nextFetchIndex (fetchFeedPage api allIds sec (if sec = Past then 30 else 0) signalAtPage)"
    using loadFeed_fresh [of sec forceFresh w nowRead listApi signalAtIds allIds signalAtPage api nowWrite]
    by (intro impI) (elim conjE, simp)
  show ?thesis
    by (rule conjI [OF c1 conjI [OF c2 conjI [OF c3 conjI [OF c4 conjI [OF c5 conjI [OF c6 conjI [OF c7 conjI [OF c8 conjI [OF c9 c10]]]]]]]]])
qed

text \<open>
  Jobs 1 and 3 with a story 2 between them give the page of 1 and 3. Of 31 ids whose
  first 30 are comments and whose last is a story, the top page holds the story: the
  first chunk gives nothing, a second chunk is pulled, and the cursor ends at 60. The past
  section over 32 ids shows the items 31 and 32.
\<close>

theorem fetchFeedPage_assembly_witness:
  "item_of 1 Job [] \<in> set (page_items (fetchFeedPage jobs_api [1, 2, 3] Jobs 0 (AbortSignal False))) \<and>
   shouldRenderInSection (item_of 1 Job []) Jobs \<and>
   page_items (fetchFeedPage jobs_api [1, 2, 3] Jobs 0 (AbortSignal False)) =
     [item_of 1 Job [], item_of 3 Job []] \<and>
   page_items (fetchFeedPage late_story_api
       [1, 2, 3, 4, 5, 6, 7, 8, 9, 10, 11, 12, 13, 14, 15, 16, 17, 18, 19, 20, 21, 22,
        23, 24, 25, 26, 27, 28, 29, 30, 31] Top 0 (AbortSignal False)) = [item_of 31 Story []] \<and>
   0 + 30 * 1 < nextFetchIndex (fetchFeedPage late_story_api
       [1, 2, 3, 4, 5, 6, 7, 8, 9, 10, 11, 12, 13, 14, 15, 16, 17, 18, 19, 20, 21, 22,
        23, 24, 25, 26, 27, 28, 29, 30, 31] Top 0 (AbortSignal False)) \<and>
   length (rendered late_story_api (AbortSignal False) Top (slice
       [1, 2, 3, 4, 5, 6, 7, 8, 9, 10, 11, 12, 13, 14, 15, 16, 17, 18, 19, 20, 21, 22,
        23, 24, 25, 26, 27, 28, 29, 30, 31] 0 (0 + 30 * 1))) < 30 \<and>
   length (page_items (fetchFeedPage late_story_api
       [1, 2, 3, 4, 5, 6, 7, 8, 9, 10, 11, 12, 13, 14, 15, 16, 17, 18, 19, 20, 21, 22,
        23, 24, 25, 26, 27, 28, 29, 30, 31] Top 0 (AbortSignal False))) < 30 \<and>
   rendered late_story_api (AbortSignal False) Top (drop 0
       [1, 2, 3, 4, 5, 6, 7, 8, 9, 10, 11, 12, 13, 14, 15, 16, 17, 18, 19, 20, 21, 22,
        23, 24, 25, 26, 27, 28, 29, 30, 31]) = [item_of 31 Story []] \<and>
   Past \<noteq> Submit \<and>
   snd (readTimedCache (snd (FeedView_initial, Map.empty :: feed_cache)) Past FEED_CACHE_TTL_MS 0) = None \<and>
   \<not> aborted (AbortSignal False) \<and>
   fv_items (fst (loadFeed lists_api story_api Past False (AbortSignal False) (AbortSignal False) 0 5
                    (FeedView_initial, Map.empty))) =
     [item_of 31 Story [], item_of 32 Story []] \<and>
   fv_nextFetchIndex (fst (loadFeed lists_api story_api Past False (AbortSignal False) (AbortSignal False) 0 5
                    (FeedView_initial, Map.empty))) = 60"
proof -
  have mem: "item_of 1 Job [] \<in> set (page_items (fetchFeedPage jobs_api [1, 2, 3] Jobs 0 (AbortSignal False)))"
    unfolding jobs_page by simp
  have page: "page_items (fetchFeedPage jobs_api [1, 2, 3] Jobs 0 (AbortSignal False)) =
     [item_of 1 Job [], item_of 3 Job []]"
    unfolding jobs_page by simp
  note t = fetchFeedPage_assembly [of jobs_api "[1, 2, 3]" Jobs 0 "AbortSignal False"]
  have shown: "shouldRenderInSection (item_of 1 Job []) Jobs"
    by (rule bspec [OF conjunct1 [OF conjunct2 [OF t]] mem])
  note u = fetchFeedPage_assembly [of late_story_api
       "[1, 2, 3, 4, 5, 6, 7, 8, 9, 10, 11, 12, 13, 14, 15, 16, 17, 18, 19, 20, 21, 22,
        23, 24, 25, 26, 27, 28, 29, 30, 31]" Top 0 "AbortSignal False"]
  note u7 = u [THEN conjunct2, THEN conjunct2, THEN conjunct2, THEN conjunct2, THEN conjunct2,
               THEN conjunct2, THEN conjunct1, rule_format]
  note u8 = u [THEN conjunct2, THEN conjunct2, THEN conjunct2, THEN conjunct2, THEN conjunct2,
               THEN conjunct2, THEN conjunct2, THEN conjunct1, rule_format]
  have late: "page_items (fetchFeedPage late_story_api
       [1, 2, 3, 4, 5, 6, 7, 8, 9, 10, 11, 12, 13, 14, 15, 16, 17, 18, 19, 20, 21, 22,
        23, 24, 25, 26, 27, 28, 29, 30, 31] Top 0 (AbortSignal False)) = [item_of 31 Story []]"
    unfolding late_page by simp
  have before: "0 + 30 * 1 < nextFetchIndex (fetchFeedPage late_story_api
       [1, 2, 3, 4, 5, 6, 7, 8, 9, 10, 11, 12, 13, 14, 15, 16, 17, 18, 19, 20, 21, 22,
        23, 24, 25, 26, 27, 28, 29, 30, 31] Top 0 (AbortSignal False))"
    unfolding late_page by simp
  have few: "length (rendered late_story_api (AbortSignal False) Top (slice
       [1, 2, 3, 4, 5, 6, 7, 8, 9, 10, 11, 12, 13, 14, 15, 16, 17, 18, 19, 20, 21, 22,
        23, 24, 25, 26, 27, 28, 29, 30, 31] 0 (0 + 30 * 1))) < 30"
    by (rule conjunct2 [OF u7 [OF before]])
  have short: "length (page_items (fetchFeedPage late_story_api
       [1, 2, 3, 4, 5, 6, 7, 8, 9, 10, 11, 12, 13, 14, 15, 16, 17, 18, 19, 20, 21, 22,
        23, 24, 25, 26, 27, 28, 29, 30, 31] Top 0 (AbortSignal False))) < 30"
    unfolding late_page by simp
  have all: "rendered late_story_api (AbortSignal False) Top (drop 0
       [1, 2, 3, 4, 5, 6, 7, 8, 9, 10, 11, 12, 13, 14, 15, 16, 17, 18, 19, 20, 21, 22,
        23, 24, 25, 26, 27, 28, 29, 30, 31]) = [item_of 31 Story []]"
    using u8 [OF short] by (simp only: late)
  have ne: "Past \<noteq> Submit" by simp
  have miss: "snd (readTimedCache (snd (FeedView_initial, Map.empty :: feed_cache)) Past FEED_CACHE_TTL_MS 0) = None"
    by (simp add: readTimedCache_def)
  have na: "\<not> aborted (AbortSignal False)" by simp
  note l = fetchFeedPage_assembly
    [of story_api "[]" Past 0 "AbortSignal False" undefined False "(FeedView_initial, Map.empty)" 0
        lists_api "AbortSignal False"
        "[1, 2, 3, 4, 5, 6, 7, 8, 9, 10, 11, 12, 13, 14, 15, 16, 17, 18, 19, 20, 21, 22,
          23, 24, 25, 26, 27, 28, 29, 30, 31, 32]" "AbortSignal False" 5,
     THEN conjunct2, THEN conjunct2, THEN conjunct2, THEN conjunct2, THEN conjunct2,
     THEN conjunct2, THEN conjunct2, THEN conjunct2, THEN conjunct2, rule_format]
  have loaded: "fv_items (fst (loadFeed lists_api story_api Past False (AbortSignal False) (AbortSignal False) 0 5
                    (FeedView_initial, Map.empty))) =
     [item_of 31 Story [], item_of 32 Story []] \<and>
   fv_nextFetchIndex (fst (loadFeed lists_api story_api Past False (AbortSignal False) (AbortSignal False) 0 5
                    (FeedView_initial, Map.empty))) = 60"
    using l [OF conjI [OF ne conjI [OF disjI2 [OF miss] conjI [OF past_ids conjI [OF na na]]]]]
    by (simp add: past_page)
  show ?thesis
    by (intro conjI mem shown page late before few short all ne miss na
          conjunct1 [OF loaded] conjunct2 [OF loaded])
qed

section \<open>The single-id fetch\<close>

text \<open>
  Claim C5 (single-id fetch error handling), as amended. A single-id fetch returns the
  "not found" result when a success response carries \<^verbatim>\<open>null\<close> or an item whose id is
  no number. It rejects, and the error reaches the caller, on every other failure: an
  aborted signal, a failure of transport, a body that is no JSON, and also a response
  with a status outside 200 to 299, which \<open>fetchJson\<close> turns into an error of its own.
  Only the callers that wrap the fetch in \<^verbatim>\<open>.catch(() => null)\<close>, the batch fetch and
  the tree builder, see every rejection as "not found".
\<close>

theorem fetchItemById_outcomes:
  "fetchItemById api i signal =
     (if aborted signal then Inl AbortError
      else case api i of
        NetworkFailure \<Rightarrow> Inl NetworkError
      | Response st b \<Rightarrow>
          if \<not> (200 \<le> st \<and> st \<le> 299) then Inl (RequestFailed st)
          else (case b of
                  None \<Rightarrow> Inl SyntaxError
                | Some None \<Rightarrow> Inr None
                | Some (Some it) \<Rightarrow>
                    (case item_id it of Number n \<Rightarrow> Inr (Some it) | _ \<Rightarrow> Inr None))) \<and>
   catch_null (fetchItemById api i signal) =
     (case fetchItemById api i signal of Inl e \<Rightarrow> None | Inr item \<Rightarrow> item)"
  by (cases "api i")
     (auto simp: fetchItemById_def fetchJson_def ok_def catch_null_def
           split: option.splits js_value.splits)

text \<open>
  The claim as first stated has a non-success response give "not found"; a 404 gives a
  rejection.
\<close>

theorem fetchItemById_counterexample:
  "fetchItemById (\<lambda>i. Response 404 (Some None)) 1 (AbortSignal False) = Inl (RequestFailed 404) \<and>
   fetchItemById (\<lambda>i. Response 404 (Some None)) 1 (AbortSignal False) \<noteq> Inr None"
  by (simp add: fetchItemById_def fetchJson_def ok_def)

section \<open>The id-list resolver\<close>

lemma numeric_ids_values:
  "map Number (numeric_ids xs) = filter (\<lambda>v. typeof v = ''number'') xs"
proof (induction xs)
  case Nil
  then show ?case by (simp add: numeric_ids_def List.map_filter_simps)
next
  case (Cons v vs)
  then show ?case
    by (cases v) (simp_all add: numeric_ids_def List.map_filter_simps)
qed

text \<open>
  Claim C9 (id-list resolver). For the submit section the resolver returns the empty list
  whatever the upstream and the signal are: it asks nothing. For the comments section it
  returns the \<open>items\<close> of the updates feed (none when the field is missing) restricted to
  the numbers. For every other section it returns the list of the section's endpoint
  restricted to the numbers. The restriction keeps the numeric entries in their order
  and drops the others without an error.
\<close>

theorem fetchStoryIds_resolver:
  "fetchStoryIds api Submit signal = Inr [] \<and>
   fetchStoryIds api Comments signal =
     (case fetchJson (updates_json api) signal of
        Inl e \<Rightarrow> Inl e
      | Inr updates \<Rightarrow>
          Inr (numeric_ids (case updates_items updates of None \<Rightarrow> [] | Some xs \<Rightarrow> xs))) \<and>
   (sec \<noteq> Submit \<and> sec \<noteq> Comments \<longrightarrow>
      fetchStoryIds api sec signal =
        (case fetchJson (stories_json api (endpoint sec)) signal of
           Inl e \<Rightarrow> Inl e
         | Inr storyIds \<Rightarrow> Inr (numeric_ids storyIds))) \<and>
   map Number (numeric_ids xs) = filter (\<lambda>v. typeof v = ''number'') xs"
  by (simp add: fetchStoryIds_def numeric_ids_values)

text \<open>
  The updates feed \<open>[1, "x", 3, null]\<close> resolves to 1 and 3, a ranked list
  \<open>["7", 8, undefined, 9, true]\<close> to 8 and 9.
\<close>

theorem fetchStoryIds_resolver_witness:
  "Top \<noteq> Submit \<and> Top \<noteq> Comments \<and>
   fetchStoryIds lists_api Comments (AbortSignal False) = Inr [1, 3] \<and>
   fetchStoryIds
     \<lparr>updates_json = NetworkFailure,
      stories_json = (\<lambda>e. Response 200 (Some [String ''7'', Number 8, Undefined, Number 9, Boolean True]))\<rparr>
     Top (AbortSignal False) = Inr [8, 9]"
  using fetchStoryIds_resolver [of lists_api "AbortSignal False" Top]
    fetchStoryIds_resolver
      [of "\<lparr>updates_json = NetworkFailure,
            stories_json = (\<lambda>e. Response 200 (Some [String ''7'', Number 8, Undefined, Number 9, Boolean True]))\<rparr>"
          "AbortSignal False" Top]
  by (simp add: fetchJson_def ok_def lists_api_def numeric_ids_def List.map_filter_simps)

section \<open>The session cache\<close>

text \<open>
  Claim C4 (cache TTL read semantics). In each of the three caches, feeds by section,
  posts by post id and users by lower-cased handle (\<open>toLowerCase\<close> stands for the
  platform's function), a read at time \<open>t\<close> of an entry written at time \<open>t0\<close> returns the
  stored value and leaves the cache as it is exactly when \<open>t - t0\<close> is at most the TTL of
  the cache, 60000 ms for feeds, 120000 ms for posts and 300000 ms for users; otherwise the
  read removes the entry and reports absent.
\<close>

theorem readTimedCache_ttl:
  "readTimedCache (writeTimedCache (feedCache :: feed_cache) sec snap t0) sec FEED_CACHE_TTL_MS t =
     (if t - t0 \<le> 60000 then (writeTimedCache feedCache sec snap t0, Some snap)
      else ((writeTimedCache feedCache sec snap t0)(sec := None), None)) \<and>
   readTimedCache (writeTimedCache (postCache :: post_cache) postId post t0) postId POST_CACHE_TTL_MS t =
     (if t - t0 \<le> 120000 then (writeTimedCache postCache postId post t0, Some post)
      else ((writeTimedCache postCache postId post t0)(postId := None), None)) \<and>
   readTimedCache (writeTimedCache (userCache :: user_cache) (toLowerCase userId) user t0)
       (toLowerCase userId) USER_CACHE_TTL_MS t =
     (if t - t0 \<le> 300000 then (writeTimedCache userCache (toLowerCase userId) user t0, Some user)
      else ((writeTimedCache userCache (toLowerCase userId) user t0)(toLowerCase userId := None), None))"
  by (simp add: readTimedCache_def writeTimedCache_def FEED_CACHE_TTL_MS_def POST_CACHE_TTL_MS_def
        USER_CACHE_TTL_MS_def)

section \<open>Cancellation\<close>

lemma aborted_fetch: "catch_null (fetchItemById api i (AbortSignal True)) = None"
  by (simp add: catch_null_def fetchItemById_def fetchJson_def)

lemma aborted_level: "level_comments api ids (AbortSignal True) = []"
  by (simp add: level_comments_def aborted_fetch List.map_filter_def)

lemma aborted_tree: "buildCommentTree api ids (AbortSignal True) depth = []"
  by (subst buildCommentTree_unfold) (simp add: aborted_level)

text \<open>
  The feed load reads its signal after each of its two suspensions, and once the signal is
  aborted it writes nothing: the cache is left as the call found it, or as its one cache
  read left it.
\<close>

lemma loadFeed_aborted_no_write:
  "aborted signalAtIds \<or> aborted signalAtPage \<Longrightarrow>
   snd (loadFeed listApi api sec forceFresh signalAtIds signalAtPage nowRead nowWrite w) = snd w \<or>
   snd (loadFeed listApi api sec forceFresh signalAtIds signalAtPage nowRead nowWrite w) =
     fst (readTimedCache (snd w) sec FEED_CACHE_TTL_MS nowRead)"
  by (auto simp: loadFeed_def Let_def split: option.splits sum.splits)

text \<open>
  Claim C6 (cancellation safety). The post view's \<^verbatim>\<open>.then\<close> callback never reads the
  signal. Run for a post that has arrived, under a signal aborted while the comment tree
  is fetched, it finds every request of the tree rejected and caught, takes the empty
  forest for the post's comments, and stores it: the state is set to ready and the post
  cache gets a fresh entry for the post with no comments, over whatever the cache held
  for it; a read of the post cache then returns that entry. On the endless thread: the
  effect for post 1, aborted after the post has arrived, leaves post 1 in the cache
  without comments, where the same effect not aborted stores its thread.
\<close>

theorem PostView_then_aborted:
  "PostView_then api postId (AbortSignal True) now (Some it) (st, postCache) =
     Inr (st\<lparr>pv_item := Some it, pv_comments := [], pv_loadState := Ready\<rparr>,
          postCache(postId \<mapsto> \<lparr>tv_value = \<lparr>post_item = it, post_comments = []\<rparr>, createdAt = now\<rparr>)) \<and>
   snd (readTimedCache
          (postCache(postId \<mapsto> \<lparr>tv_value = \<lparr>post_item = it, post_comments = []\<rparr>, createdAt = now\<rparr>))
          postId POST_CACHE_TTL_MS now) =
     Some \<lparr>post_item = it, post_comments = []\<rparr> \<and>
   PostView_effect chain_api 1 (AbortSignal False) (AbortSignal True) now None
       (PostView_initial None, Map.empty) =
     ((PostView_initial None)\<lparr>pv_item := Some (item_of 1 Comment [2]), pv_comments := [], pv_loadState := Ready\<rparr>,
      [1 \<mapsto> \<lparr>tv_value = \<lparr>post_item = item_of 1 Comment [2], post_comments = []\<rparr>, createdAt = now\<rparr>]) \<and>
   post_comments (tv_value (the (snd (PostView_effect chain_api 1 (AbortSignal False) (AbortSignal False) now None
       (PostView_initial None, Map.empty)) 1))) =
     buildCommentTree chain_api [2] (AbortSignal False) 0 \<and>
   buildCommentTree chain_api [2] (AbortSignal False) 0 \<noteq> []"
proof -
  have fetch1: "fetchItemById chain_api 1 (AbortSignal False) = Inr (Some (item_of 1 Comment [2]))"
    by (simp add: fetchItemById_def fetchJson_def chain_api_def ok_def item_of_def)
  have kids: "kids_or_empty (item_of 1 Comment [2]) = [2]"
    by (simp add: kids_or_empty_def item_of_def)
  have ne: "buildCommentTree chain_api [2] (AbortSignal False) 0 \<noteq> []"
    by (subst buildCommentTree_unfold) (simp add: level_comments_def chain_api_def run_simps)
  show ?thesis
    using ne
    by (simp add: PostView_effect_def fetch1 readTimedCache_def POST_CACHE_TTL_MS_def
          PostView_then_def kids writeTimedCache_def Let_def aborted_tree)
qed

end
